theory Spec2Isabelle
  imports Complex_Main "HOL-Library.Word" "HOL-Library.AList"
begin

section \<open>Python values, dictionaries and exceptions\<close>

text \<open>
  The values a constraint script can be handed and can hand back.  A Python \<open>dict\<close> keeps its
  keys in insertion order; it is an association list in which \<open>AList.update\<close> overwrites the
  value of a present key in place and appends an absent one, \<open>AList.delete\<close> is \<open>del\<close>,
  and \<open>map_of\<close> is the lookup.
\<close>

datatype pyval = VNone | VBool bool | VInt int | VStr string | VList "pyval list"

text \<open>Python's truth value of an object, as \<open>not x\<close> and \<open>if x\<close> read it.\<close>

fun truthy :: "pyval \<Rightarrow> bool" where
  "truthy VNone = False"
| "truthy (VBool b) = b"
| "truthy (VInt i) = (i \<noteq> 0)"
| "truthy (VStr s) = (s \<noteq> [])"
| "truthy (VList xs) = (xs \<noteq> [])"

text \<open>The truth value of an attribute that is \<open>None\<close> or a list, as \<open>if tx.outputs\<close> reads it.\<close>

fun truthy_list :: "'a list option \<Rightarrow> bool" where
  "truthy_list None = False"
| "truthy_list (Some []) = False"
| "truthy_list (Some (x # xs)) = True"

text \<open>
  What calling a constraint script does: it returns a value, or it raises an exception
  derived from \<open>Exception\<close>.  Scripts are pure functions of their argument.
\<close>

datatype outcome = Returns pyval | Raises

datatype error = TypeError | OverflowError | KeyError | StopIteration | IndexError | ZeroDivisionError

type_synonym byte = "8 word"

section \<open>Outputs, inputs and transactions\<close>

record Output =
  constraint :: "(pyval \<Rightarrow> outcome) option"
  amount :: int

definition can_be_spent :: "Output \<Rightarrow> pyval \<Rightarrow> pyval" where
  "can_be_spent out sat =
     (case constraint out of
        None \<Rightarrow> VBool True
      | Some c \<Rightarrow> (case c sat of Returns v \<Rightarrow> v | Raises \<Rightarrow> VBool False))"

record Input =
  txHash :: int
  txIdx :: int
  satisfier :: pyval

record Transaction =
  inputs :: "Input list option"
  outputs :: "Output list option"
  data :: "byte list option"

type_synonym utxo_key = "int \<times> int"
type_synonym utxos = "(utxo_key \<times> Output) list"

text \<open>\<open>utxo_key = (inp.txHash, inp.txIdx)\<close>\<close>

definition utxo_key_of :: "Input \<Rightarrow> utxo_key" where
  "utxo_key_of inp = (txHash inp, txIdx inp)"

definition getInputs :: "Transaction \<Rightarrow> Input list" where
  "getInputs tx = (case inputs tx of None \<Rightarrow> [] | Some ins \<Rightarrow> ins)"

definition getOutput :: "Transaction \<Rightarrow> int \<Rightarrow> Output option" where
  "getOutput tx n =
     (case outputs tx of
        None \<Rightarrow> None
      | Some outs \<Rightarrow>
          if truthy_list (Some outs) \<and> 0 \<le> n \<and> n < int (length outs) then Some (outs ! nat n)
          else None)"

definition validateMint :: "Transaction \<Rightarrow> int \<Rightarrow> bool" where
  "validateMint tx maxCoinsToCreate =
     (case inputs tx of
        Some ins \<Rightarrow> False
      | None \<Rightarrow>
          (case outputs tx of
             None \<Rightarrow> False
           | Some [] \<Rightarrow> False
           | Some (out # outs) \<Rightarrow> sum_list (map amount (out # outs)) \<le> maxCoinsToCreate))"

text \<open>
  The loop of \<open>Transaction.validate\<close> over the inputs: \<open>None\<close> is the early
  \<open>return False\<close>, \<open>Some s\<close> the value of \<open>input_sum\<close> when the loop ends.
\<close>

fun validate_inputs :: "utxos \<Rightarrow> Input list \<Rightarrow> int \<Rightarrow> int option" where
  "validate_inputs unspentOutputDict [] input_sum = Some input_sum"
| "validate_inputs unspentOutputDict (inp # rest) input_sum =
     (let utxo_key = utxo_key_of inp
      in case map_of unspentOutputDict utxo_key of
           None \<Rightarrow> None
         | Some utxo \<Rightarrow>
             if \<not> truthy (can_be_spent utxo (satisfier inp)) then None
             else validate_inputs unspentOutputDict rest (input_sum + amount utxo))"

definition Transaction_validate :: "Transaction \<Rightarrow> utxos \<Rightarrow> bool" where
  "Transaction_validate tx unspentOutputDict =
     (case inputs tx of
        None \<Rightarrow> True
      | Some [] \<Rightarrow> True
      | Some (inp # ins) \<Rightarrow>
          (case outputs tx of
             None \<Rightarrow> False
           | Some [] \<Rightarrow> False
           | Some (out # outs) \<Rightarrow>
               (case validate_inputs unspentOutputDict (inp # ins) 0 of
                  None \<Rightarrow> False
                | Some input_sum \<Rightarrow>
                    input_sum \<ge> foldl (\<lambda>output_sum out. output_sum + amount out) 0 (out # outs))))"

section \<open>Hashing\<close>

text \<open>
  \<open>hashlib.sha256\<close> and the \<open>dill\<close> serialiser are libraries outside the repository;
  they are parameters of the model.  \<open>sha256 bs\<close> is the 32-byte digest of \<open>bs\<close> as a
  256-bit word, so that \<open>int.from_bytes(digest, "big")\<close> is \<open>uint (sha256 bs)\<close>;
  \<open>txh tx\<close> is the digest that \<open>Transaction.getHash\<close> takes of the serialised
  transaction.
\<close>

type_synonym sha256_fn = "byte list \<Rightarrow> 256 word"
type_synonym txhash_fn = "Transaction \<Rightarrow> 256 word"

definition Transaction_getHash :: "txhash_fn \<Rightarrow> Transaction \<Rightarrow> int" where
  "Transaction_getHash txh tx = uint (txh tx)"

text \<open>\<open>n.to_bytes(32, "big")\<close>: OverflowError on a negative or too large number.\<close>

definition to_bytes32 :: "int \<Rightarrow> error + byte list" where
  "to_bytes32 n =
     (if 0 \<le> n \<and> n < 2 ^ 256
      then Inr (map (\<lambda>i. word_of_int (n div 256 ^ i)) (rev [0..<32]))
      else Inl OverflowError)"

text \<open>\<open>str\<close> of an integer and of an optional integer, and \<open>str.encode\<close> on ASCII.\<close>

function str_nat :: "nat \<Rightarrow> string" where
  "str_nat n = (if n < 10 then [char_of (48 + n)] else str_nat (n div 10) @ [char_of (48 + n mod 10)])"
  by pat_completeness auto
termination
  by (relation "measure id") auto

declare str_nat.simps [simp del]

definition str_int :: "int \<Rightarrow> string" where
  "str_int i = (if i < 0 then CHR ''-'' # str_nat (nat (- i)) else str_nat (nat i))"

definition str_opt :: "int option \<Rightarrow> string" where
  "str_opt v = (case v of None \<Rightarrow> ''None'' | Some i \<Rightarrow> str_int i)"

definition encode :: "string \<Rightarrow> byte list" where
  "encode s = map of_char s"

section \<open>The Merkle tree\<close>

record HashableMerkleTree =
  objects :: "Transaction list"
  hashableList :: "int list"

definition HashableMerkleTree_init :: "txhash_fn \<Rightarrow> Transaction list option \<Rightarrow> HashableMerkleTree" where
  "HashableMerkleTree_init txh hl =
     (case hl of
        None \<Rightarrow> \<lparr>objects = [], hashableList = []\<rparr>
      | Some xs \<Rightarrow> \<lparr>objects = xs, hashableList = map (Transaction_getHash txh) xs\<rparr>)"

text \<open>One pass of the body of the \<open>for i in range(0, len(current_level), 2)\<close> loop.\<close>

definition merkle_pair :: "sha256_fn \<Rightarrow> int list \<Rightarrow> nat \<Rightarrow> int list \<Rightarrow> error + int list" where
  "merkle_pair sha current_level i next_level =
     (if i < length current_level
      then (let left = current_level ! i;
                right = (if i + 1 < length current_level then current_level ! (i + 1) else 0)
            in case to_bytes32 left of
                 Inl e \<Rightarrow> Inl e
               | Inr lb \<Rightarrow>
                   (case to_bytes32 right of
                      Inl e \<Rightarrow> Inl e
                    | Inr rb \<Rightarrow> Inr (next_level @ [uint (sha (lb @ rb))])))
      else Inl IndexError)"

fun merkle_level :: "sha256_fn \<Rightarrow> int list \<Rightarrow> nat list \<Rightarrow> int list \<Rightarrow> error + int list" where
  "merkle_level sha current_level [] next_level = Inr next_level"
| "merkle_level sha current_level (i # is) next_level =
     (case merkle_pair sha current_level i next_level of
        Inl e \<Rightarrow> Inl e
      | Inr next_level' \<Rightarrow> merkle_level sha current_level is next_level')"

definition range2 :: "nat \<Rightarrow> nat list" where
  "range2 n = filter even [0..<n]"

lemma length_range2: "length (range2 n) = (n + 1) div 2"
  unfolding range2_def by (induction n) auto

lemma merkle_level_length:
  "merkle_level sha lvl is acc = Inr r \<Longrightarrow> length r = length acc + length is"
proof (induction "is" arbitrary: acc)
  case Nil
  then show ?case by simp
next
  case (Cons i "is")
  then show ?case
    by (auto simp: merkle_pair_def Let_def split: sum.splits if_splits)
qed

function merkle_loop :: "sha256_fn \<Rightarrow> int list \<Rightarrow> error + int" where
  "merkle_loop sha current_level =
     (if length current_level > 1
      then (case merkle_level sha current_level (range2 (length current_level)) [] of
              Inl e \<Rightarrow> Inl e
            | Inr next_level \<Rightarrow> merkle_loop sha next_level)
      else (case current_level of [] \<Rightarrow> Inl IndexError | h # hs \<Rightarrow> Inr h))"
  by pat_completeness auto
termination
proof (relation "measure (\<lambda>(sha, lvl). length lvl)")
  show "wf (measure (\<lambda>(sha, lvl). length lvl))" by simp
next
  fix sha :: sha256_fn and current_level x2 :: "int list"
  assume gt: "1 < length current_level"
    and lv: "merkle_level sha current_level (range2 (length current_level)) [] = Inr x2"
  from merkle_level_length [OF lv] have "length x2 = (length current_level + 1) div 2"
    by (simp add: length_range2)
  with gt show "((sha, x2), (sha, current_level)) \<in> measure (\<lambda>(sha, lvl). length lvl)"
    by simp
qed

definition calcMerkleRoot :: "sha256_fn \<Rightarrow> HashableMerkleTree \<Rightarrow> error + int" where
  "calcMerkleRoot sha t =
     (case hashableList t of [] \<Rightarrow> Inr 0 | h # hs \<Rightarrow> merkle_loop sha (hashableList t))"

section \<open>Blocks\<close>

record BlockContents =
  contents :: HashableMerkleTree

record Block =
  prior_block_hash :: "int option"
  version :: "int option"
  merkle_tree :: "HashableMerkleTree option"
  target :: "int option"
  nonce :: int
  block_contents :: BlockContents
  timestamp :: "int option"

definition Block_init :: Block where
  "Block_init =
     \<lparr>prior_block_hash = None, version = None, merkle_tree = None, target = None, nonce = 0,
      block_contents = \<lparr>contents = \<lparr>objects = [], hashableList = []\<rparr>\<rparr>, timestamp = None\<rparr>"

definition setContents :: "txhash_fn \<Rightarrow> Block \<Rightarrow> Transaction list \<Rightarrow> Block" where
  "setContents txh b xs =
     (let merkle = HashableMerkleTree_init txh (Some xs)
      in b\<lparr>block_contents := \<lparr>contents = merkle\<rparr>, merkle_tree := Some merkle\<rparr>)"

definition Block_getHash :: "sha256_fn \<Rightarrow> Block \<Rightarrow> error + int" where
  "Block_getHash sha b =
     (case calcMerkleRoot sha (contents (block_contents b)) of
        Inl e \<Rightarrow> Inl e
      | Inr merkle_root \<Rightarrow>
          Inr (uint (sha (encode (str_opt (prior_block_hash b) @ str_int merkle_root @ str_opt (timestamp b)
                                  @ str_int (nonce b) @ str_opt (target b))))))"

text \<open>
  The nonce search of \<open>mine\<close> has no bound: the result is \<open>None\<close> when it never ends.
\<close>

partial_function (option) mine_loop :: "sha256_fn \<Rightarrow> int \<Rightarrow> Block \<Rightarrow> (error + Block) option" where
  "mine_loop sha tgt b =
     (case Block_getHash sha b of
        Inl e \<Rightarrow> Some (Inl e)
      | Inr h \<Rightarrow> if h \<ge> tgt then mine_loop sha tgt (b\<lparr>nonce := nonce b + 1\<rparr>) else Some (Inr b))"

declare mine_loop.simps [code]

definition mine :: "sha256_fn \<Rightarrow> Block \<Rightarrow> int \<Rightarrow> (error + Block) option" where
  "mine sha b tgt = mine_loop sha tgt (b\<lparr>target := Some tgt, nonce := 0\<rparr>)"

text \<open>
  The inner loop of \<open>Block.validate\<close> over the inputs of a transaction: \<open>None\<close> is
  \<open>return None\<close>, \<open>Some spent\<close> the set of spent keys after the loop (kept in the order
  of insertion; no key is added twice).
\<close>

fun spend_inputs :: "utxos \<Rightarrow> Input list \<Rightarrow> utxo_key list \<Rightarrow> utxo_key list option" where
  "spend_inputs current_utxos [] spent = Some spent"
| "spend_inputs current_utxos (inp # rest) spent =
     (let utxo_key = utxo_key_of inp
      in if utxo_key \<in> set spent then None
         else (case map_of current_utxos utxo_key of
                 None \<Rightarrow> None
               | Some utxo \<Rightarrow>
                   if \<not> truthy (can_be_spent utxo (satisfier inp)) then None
                   else spend_inputs current_utxos rest (spent @ [utxo_key])))"

text \<open>\<open>for idx, out in enumerate(tx.outputs): current_utxos[(tx_hash, idx)] = out\<close>\<close>

fun add_outputs :: "int \<Rightarrow> nat \<Rightarrow> Output list \<Rightarrow> utxos \<Rightarrow> utxos" where
  "add_outputs tx_hash idx [] current_utxos = current_utxos"
| "add_outputs tx_hash idx (out # rest) current_utxos =
     add_outputs tx_hash (idx + 1) rest (AList.update (tx_hash, int idx) out current_utxos)"

text \<open>
  The loop over the transactions of the block, from index \<open>idx\<close> on, on the running
  UTXO view and the set of spent keys; \<open>None\<close> is \<open>return None\<close>.
\<close>

fun apply_txs ::
  "txhash_fn \<Rightarrow> int \<Rightarrow> nat \<Rightarrow> Transaction list \<Rightarrow> utxos \<times> utxo_key list \<Rightarrow> (utxos \<times> utxo_key list) option"
where
  "apply_txs txh maxMint idx [] st = Some st"
| "apply_txs txh maxMint idx (tx # rest) (current_utxos, spent) =
     (case (if idx = 0
            then (if (case inputs tx of Some ins \<Rightarrow> True | None \<Rightarrow> False)
                     \<or> (truthy_list (outputs tx) \<and> \<not> validateMint tx maxMint)
                  then None else Some spent)
            else (case inputs tx of
                    None \<Rightarrow> None
                  | Some ins \<Rightarrow> spend_inputs current_utxos ins spent)) of
        None \<Rightarrow> None
      | Some spent' \<Rightarrow>
          apply_txs txh maxMint (idx + 1) rest
            (if truthy_list (outputs tx)
             then (case outputs tx of
                     None \<Rightarrow> current_utxos
                   | Some outs \<Rightarrow> add_outputs (Transaction_getHash txh tx) 0 outs current_utxos)
             else current_utxos,
             spent'))"

text \<open>\<open>for utxo_key in spent: del current_utxos[utxo_key]\<close>; \<open>del\<close> of an absent key raises.\<close>

fun del_spent :: "utxo_key list \<Rightarrow> utxos \<Rightarrow> error + utxos" where
  "del_spent [] current_utxos = Inr current_utxos"
| "del_spent (utxo_key # rest) current_utxos =
     (case map_of current_utxos utxo_key of
        None \<Rightarrow> Inl KeyError
      | Some utxo \<Rightarrow> del_spent rest (AList.delete utxo_key current_utxos))"

text \<open>
  \<open>Block.validate\<close>: \<open>Inr None\<close> is the invalid block, \<open>Inr (Some u)\<close> the new UTXO
  set, \<open>Inl e\<close> an exception.  The deep copy of the argument is the argument itself, a value.
\<close>

definition Block_validate ::
  "sha256_fn \<Rightarrow> txhash_fn \<Rightarrow> Block \<Rightarrow> utxos \<Rightarrow> int \<Rightarrow> error + utxos option" where
  "Block_validate sha txh b unspentOutputs maxMint =
     (case Block_getHash sha b of
        Inl e \<Rightarrow> Inl e
      | Inr h \<Rightarrow>
          (case target b of
             None \<Rightarrow> Inl TypeError
           | Some t \<Rightarrow>
               if h \<ge> t then Inr None
               else (let current_utxos = unspentOutputs;
                         transactions = objects (contents (block_contents b))
                     in case transactions of
                          [] \<Rightarrow> Inr (Some current_utxos)
                        | tx # rest \<Rightarrow>
                            (case apply_txs txh maxMint 0 transactions (current_utxos, []) of
                               None \<Rightarrow> Inr None
                             | Some (final_utxos, spent) \<Rightarrow>
                                 (case del_spent spent final_utxos of
                                    Inl e \<Rightarrow> Inl e
                                  | Inr u \<Rightarrow> Inr (Some u))))))"

section \<open>The chain of blocks\<close>

text \<open>
  Work is a Python \<open>float\<close>.  A float is a rational number, an infinity or NaN; the
  rounding of an exact result to the nearest float (an infinity when it is too large) is the
  parameter \<open>rnd\<close>.  The division of two integers raises ZeroDivisionError on a zero
  divisor and OverflowError where the rounded quotient is not finite.
\<close>

datatype pyfloat = Finite rat | PosInf | NegInf | NaN

type_synonym rounding = "rat \<Rightarrow> pyfloat"

fun float_add :: "rounding \<Rightarrow> pyfloat \<Rightarrow> pyfloat \<Rightarrow> pyfloat" where
  "float_add rnd (Finite a) (Finite b) = rnd (a + b)"
| "float_add rnd NaN y = NaN"
| "float_add rnd x NaN = NaN"
| "float_add rnd PosInf NegInf = NaN"
| "float_add rnd NegInf PosInf = NaN"
| "float_add rnd PosInf y = PosInf"
| "float_add rnd NegInf y = NegInf"
| "float_add rnd x PosInf = PosInf"
| "float_add rnd x NegInf = NegInf"

text \<open>\<open>x > y\<close> on floats; every comparison with NaN is false.\<close>

fun float_gt :: "pyfloat \<Rightarrow> pyfloat \<Rightarrow> bool" where
  "float_gt (Finite a) (Finite b) = (a > b)"
| "float_gt NaN y = False"
| "float_gt x NaN = False"
| "float_gt PosInf PosInf = False"
| "float_gt PosInf y = True"
| "float_gt x PosInf = False"
| "float_gt NegInf y = False"
| "float_gt x NegInf = True"

definition int_truediv :: "rounding \<Rightarrow> int \<Rightarrow> int \<Rightarrow> error + pyfloat" where
  "int_truediv rnd a b =
     (if b = 0 then Inl ZeroDivisionError
      else (case rnd (of_int a / of_int b) of
              Finite q \<Rightarrow> Inr (Finite q)
            | _ \<Rightarrow> Inl OverflowError))"

record Blockchain =
  maxMintCoinsPerTx :: int
  blocks :: "(int \<times> Block) list"
  block_heights :: "(int \<times> int list) list"
  cumulative_work :: "(int \<times> pyfloat) list"
  utxo_sets :: "(int \<times> utxos option) list"
  genesisTarget :: int

definition getWork :: "rounding \<Rightarrow> int \<Rightarrow> int option \<Rightarrow> error + pyfloat" where
  "getWork rnd gt tgt =
     (case tgt of
        None \<Rightarrow> Inl TypeError
      | Some t \<Rightarrow> if t = 0 then Inr PosInf else int_truediv rnd gt t)"

text \<open>
  \<open>Blockchain.__init__\<close>: \<open>None\<close> when the mining of the genesis block never ends.
\<close>

definition Blockchain_init ::
  "sha256_fn \<Rightarrow> txhash_fn \<Rightarrow> rounding \<Rightarrow> int \<Rightarrow> int \<Rightarrow> (error + Blockchain) option" where
  "Blockchain_init sha txh rnd gt maxMint =
     (case mine sha (Block_init\<lparr>target := Some gt, prior_block_hash := Some 0\<rparr>) gt of
        None \<Rightarrow> None
      | Some (Inl e) \<Rightarrow> Some (Inl e)
      | Some (Inr genesis) \<Rightarrow>
          Some (case Block_getHash sha genesis of
                  Inl e \<Rightarrow> Inl e
                | Inr genesis_hash \<Rightarrow>
                    (case getWork rnd gt (Some gt) of
                       Inl e \<Rightarrow> Inl e
                     | Inr w \<Rightarrow>
                         (case Block_validate sha txh genesis [] maxMint of
                            Inl e \<Rightarrow> Inl e
                          | Inr u \<Rightarrow>
                              Inr \<lparr>maxMintCoinsPerTx = maxMint,
                                   blocks = [(genesis_hash, genesis)],
                                   block_heights = [(0, [genesis_hash])],
                                   cumulative_work = [(genesis_hash, w)],
                                   utxo_sets = [(genesis_hash, u)],
                                   genesisTarget = gt\<rparr>))))"

text \<open>
  The loop of \<open>getTip\<close> over \<open>cumulative_work.items()\<close>, in the order of insertion;
  \<open>self.blocks[block_hash]\<close> raises KeyError on an absent key.
\<close>

fun getTip_loop ::
  "(int \<times> Block) list \<Rightarrow> (int \<times> pyfloat) list \<Rightarrow> pyfloat \<Rightarrow> Block option \<Rightarrow> error + Block option"
where
  "getTip_loop blks [] max_work tip = Inr tip"
| "getTip_loop blks ((block_hash, work) # rest) max_work tip =
     (if float_gt work max_work
      then (case map_of blks block_hash of
              None \<Rightarrow> Inl KeyError
            | Some b \<Rightarrow> getTip_loop blks rest work (Some b))
      else getTip_loop blks rest max_work tip)"

definition getTip :: "Blockchain \<Rightarrow> error + Block option" where
  "getTip s = getTip_loop (blocks s) (cumulative_work s) (Finite (- 1)) None"

text \<open>
  \<open>next(h for h, blocks in self.block_heights.items() if prior_hash in blocks)\<close>:
  the first height, in the order of the dictionary, whose list holds the hash.
\<close>

fun find_height :: "(int \<times> int list) list \<Rightarrow> int \<Rightarrow> int option" where
  "find_height [] prior_hash = None"
| "find_height ((h, blks) # rest) prior_hash =
     (if prior_hash \<in> set blks then Some h else find_height rest prior_hash)"

text \<open>
  \<open>Blockchain.extend\<close> returns what the call did (\<open>Inr\<close> the returned boolean,
  \<open>Inl\<close> the exception raised) and the state it leaves, which an exception raised after
  the first assignment leaves partly updated.  The argument is \<open>None\<close> or a block.
  \<open>record_block\<close> is the second half of the method, from \<open>self.blocks[block_hash] = block\<close>
  on: the bookkeeping of a block that has passed validation.  \<open>file_under_height\<close> is
  \<open>if height not in self.block_heights: self.block_heights[height] = []\<close> followed by
  \<open>self.block_heights[height].append(block_hash)\<close>.
\<close>

definition file_under_height :: "int \<Rightarrow> int \<Rightarrow> (int \<times> int list) list \<Rightarrow> (int \<times> int list) list" where
  "file_under_height height block_hash heights =
     AList.map_entry height (\<lambda>l. l @ [block_hash])
       (case map_of heights height of
          None \<Rightarrow> AList.update height [] heights
        | Some hs \<Rightarrow> heights)"

definition record_block ::
  "rounding \<Rightarrow> Blockchain \<Rightarrow> Block \<Rightarrow> int \<Rightarrow> utxos \<Rightarrow> int \<Rightarrow> (error + bool) \<times> Blockchain"
where
  "record_block rnd s b prior_hash new_utxos block_hash =
     (let s1 = s\<lparr>blocks := AList.update block_hash b (blocks s),
                 utxo_sets := AList.update block_hash (Some new_utxos) (utxo_sets s)\<rparr>
      in case find_height (block_heights s1) prior_hash of
           None \<Rightarrow> (Inl StopIteration, s1)
         | Some parent_height \<Rightarrow>
     (let height = parent_height + 1;
          s3 = s1\<lparr>block_heights := file_under_height height block_hash (block_heights s1)\<rparr>
      in case map_of (cumulative_work s3) prior_hash of
           None \<Rightarrow> (Inl KeyError, s3)
         | Some parent_work \<Rightarrow>
     (case getWork rnd (genesisTarget s3) (target b) of
        Inl e \<Rightarrow> (Inl e, s3)
      | Inr w \<Rightarrow>
          (Inr True,
           s3\<lparr>cumulative_work :=
                AList.update block_hash (float_add rnd parent_work w) (cumulative_work s3)\<rparr>))))"

definition extend ::
  "sha256_fn \<Rightarrow> txhash_fn \<Rightarrow> rounding \<Rightarrow> Blockchain \<Rightarrow> Block option \<Rightarrow> (error + bool) \<times> Blockchain"
where
  "extend sha txh rnd s block =
     (case block of
        None \<Rightarrow> (Inr False, s)
      | Some b \<Rightarrow>
     (case prior_block_hash b of
        None \<Rightarrow> (Inr False, s)
      | Some prior_hash \<Rightarrow>
     (case map_of (blocks s) prior_hash of
        None \<Rightarrow> (Inr False, s)
      | Some parent \<Rightarrow>
     (case map_of (utxo_sets s) prior_hash of
        None \<Rightarrow> (Inr False, s)
      | Some None \<Rightarrow> (Inr False, s)
      | Some (Some parent_utxos) \<Rightarrow>
     (case Block_validate sha txh b parent_utxos (maxMintCoinsPerTx s) of
        Inl e \<Rightarrow> (Inl e, s)
      | Inr None \<Rightarrow> (Inr False, s)
      | Inr (Some new_utxos) \<Rightarrow>
     (case Block_getHash sha b of
        Inl e \<Rightarrow> (Inl e, s)
      | Inr block_hash \<Rightarrow> record_block rnd s b prior_hash new_utxos block_hash))))))"

definition getCumulativeWork :: "Blockchain \<Rightarrow> int \<Rightarrow> pyfloat option" where
  "getCumulativeWork s blkHash = map_of (cumulative_work s) blkHash"

text \<open>\<open>[self.blocks[h] for h in self.block_heights.get(height, [])]\<close>\<close>

fun blocks_of :: "(int \<times> Block) list \<Rightarrow> int list \<Rightarrow> error + Block list" where
  "blocks_of blks [] = Inr []"
| "blocks_of blks (h # hs) =
     (case map_of blks h of
        None \<Rightarrow> Inl KeyError
      | Some b \<Rightarrow> (case blocks_of blks hs of Inl e \<Rightarrow> Inl e | Inr bs \<Rightarrow> Inr (b # bs)))"

definition getBlocksAtHeight :: "Blockchain \<Rightarrow> int \<Rightarrow> error + Block list" where
  "getBlocksAtHeight s height =
     blocks_of (blocks s) (case map_of (block_heights s) height of None \<Rightarrow> [] | Some hs \<Rightarrow> hs)"

section \<open>The specification's notions\<close>

text \<open>
  The total of the output amounts of a transaction, whether the UTXO view accepts an input
  (the referenced entry exists and its constraint lets the satisfier through), the total of
  the amounts the inputs reference, and the validity of a spending transaction in the
  specification's words: every input is accepted and the inputs cover the outputs.
\<close>

definition output_total :: "Transaction \<Rightarrow> int" where
  "output_total tx = (case outputs tx of None \<Rightarrow> 0 | Some outs \<Rightarrow> sum_list (map amount outs))"

definition input_accepted :: "utxos \<Rightarrow> Input \<Rightarrow> bool" where
  "input_accepted u inp =
     (case map_of u (utxo_key_of inp) of
        None \<Rightarrow> False
      | Some utxo \<Rightarrow> truthy (can_be_spent utxo (satisfier inp)))"

definition input_total :: "utxos \<Rightarrow> Input list \<Rightarrow> int" where
  "input_total u ins =
     sum_list (map (\<lambda>inp. case map_of u (utxo_key_of inp) of None \<Rightarrow> 0 | Some utxo \<Rightarrow> amount utxo) ins)"

definition spec_spend_valid :: "Transaction \<Rightarrow> utxos \<Rightarrow> bool" where
  "spec_spend_valid tx u =
     (list_all (input_accepted u) (getInputs tx) \<and> input_total u (getInputs tx) \<ge> output_total tx)"

text \<open>
  The Merkle root in the specification's words.  \<open>be_bytes k n\<close> is the big-endian encoding
  of \<open>n\<close> on \<open>k\<close> bytes; a pair is combined by hashing the two 32-byte encodings; a level
  is paired from the left, the last hash of an odd level with the literal 0; the root of no
  hash is 0, the root of one hash is that hash, and a longer level is paired again.
\<close>

fun be_bytes :: "nat \<Rightarrow> int \<Rightarrow> byte list" where
  "be_bytes 0 n = []"
| "be_bytes (Suc k) n = be_bytes k (n div 256) @ [word_of_int (n mod 256)]"

definition spec_combine :: "sha256_fn \<Rightarrow> int \<Rightarrow> int \<Rightarrow> int" where
  "spec_combine sha l r = uint (sha (be_bytes 32 l @ be_bytes 32 r))"

fun spec_pair_level :: "sha256_fn \<Rightarrow> int list \<Rightarrow> int list" where
  "spec_pair_level sha (l # r # rest) = spec_combine sha l r # spec_pair_level sha rest"
| "spec_pair_level sha [l] = [spec_combine sha l 0]"
| "spec_pair_level sha [] = []"

lemma length_spec_pair_level: "length (spec_pair_level sha xs) = (length xs + 1) div 2"
  by (induction sha xs rule: spec_pair_level.induct) auto

function (sequential) spec_merkle_root :: "sha256_fn \<Rightarrow> int list \<Rightarrow> int" where
  "spec_merkle_root sha [] = 0"
| "spec_merkle_root sha [h] = h"
| "spec_merkle_root sha hs = spec_merkle_root sha (spec_pair_level sha hs)"
  by pat_completeness auto
termination
  by (relation "measure (\<lambda>(sha, hs). length hs)") (auto simp: length_spec_pair_level)

text \<open>A content hash is a 256-bit number.\<close>

definition in_range :: "int \<Rightarrow> bool" where
  "in_range h \<longleftrightarrow> 0 \<le> h \<and> h < 2 ^ 256"

text \<open>The proof of work of a block is met: its hash is computed and is below its target.\<close>

definition hash_below_target :: "sha256_fn \<Rightarrow> Block \<Rightarrow> bool" where
  "hash_below_target sha b =
     (case Block_getHash sha b of
        Inl e \<Rightarrow> False
      | Inr h \<Rightarrow> (case target b of None \<Rightarrow> False | Some t \<Rightarrow> h < t))"

text \<open>
  What the loop of \<open>Block.validate\<close> keeps true of its state: no key is in the spent set
  twice, and every spent key is still in the running UTXO view.
\<close>

definition spent_inv :: "utxos \<times> utxo_key list \<Rightarrow> bool" where
  "spent_inv st \<longleftrightarrow> distinct (snd st) \<and> list_all (\<lambda>k. map_of (fst st) k \<noteq> None) (snd st)"

section \<open>Sequences of calls and the bookkeeping of a block\<close>

text \<open>
  A sequence of calls of \<open>extend\<close>, each on the state the call before has left (the
  caller goes on after an exception).
\<close>

fun extend_all ::
  "sha256_fn \<Rightarrow> txhash_fn \<Rightarrow> rounding \<Rightarrow> Blockchain \<Rightarrow> Block option list \<Rightarrow> Blockchain" where
  "extend_all sha txh rnd s [] = s"
| "extend_all sha txh rnd s (c # cs) = extend_all sha txh rnd (snd (extend sha txh rnd s c)) cs"

text \<open>
  The bookkeeping of a block in a state of the chain: the block is stored under its hash and
  its parent is stored; its height, as \<open>extend\<close> reads heights, is the height of the parent
  plus one; its cumulative work is that of the parent plus the work of its target; and its
  snapshot is what \<open>Block.validate\<close> makes of the snapshot of the parent.
\<close>

definition bookkeeping :: "sha256_fn \<Rightarrow> txhash_fn \<Rightarrow> rounding \<Rightarrow> Blockchain \<Rightarrow> Block \<Rightarrow> bool" where
  "bookkeeping sha txh rnd s b =
     (case Block_getHash sha b of
        Inl e \<Rightarrow> False
      | Inr h \<Rightarrow>
     (case prior_block_hash b of
        None \<Rightarrow> False
      | Some p \<Rightarrow>
          map_of (blocks s) h = Some b \<and> map_of (blocks s) p \<noteq> None
        \<and> (case find_height (block_heights s) p of
              None \<Rightarrow> False
            | Some parent_height \<Rightarrow> find_height (block_heights s) h = Some (parent_height + 1))
        \<and> (case map_of (cumulative_work s) p of
              None \<Rightarrow> False
            | Some parent_work \<Rightarrow>
                (case getWork rnd (genesisTarget s) (target b) of
                   Inl e \<Rightarrow> False
                 | Inr w \<Rightarrow> map_of (cumulative_work s) h = Some (float_add rnd parent_work w)))
        \<and> (case map_of (utxo_sets s) p of
              None \<Rightarrow> False
            | Some None \<Rightarrow> False
            | Some (Some parent_utxos) \<Rightarrow>
                (case Block_validate sha txh b parent_utxos (maxMintCoinsPerTx s) of
                   Inl e \<Rightarrow> False
                 | Inr None \<Rightarrow> False
                 | Inr (Some snapshot) \<Rightarrow> map_of (utxo_sets s) h = Some (Some snapshot)))))"

text \<open>
  The hash under which a call of \<open>extend\<close> stores its block, when the call gets as far as
  \<open>self.blocks[block_hash] = block\<close>: the block names a stored parent with a snapshot and
  passes \<open>Block.validate\<close> on it.
\<close>

definition stores_under :: "sha256_fn \<Rightarrow> txhash_fn \<Rightarrow> Blockchain \<Rightarrow> Block option \<Rightarrow> int option" where
  "stores_under sha txh s block =
     (case block of
        None \<Rightarrow> None
      | Some b \<Rightarrow>
     (case prior_block_hash b of
        None \<Rightarrow> None
      | Some prior_hash \<Rightarrow>
     (case map_of (blocks s) prior_hash of
        None \<Rightarrow> None
      | Some parent \<Rightarrow>
     (case map_of (utxo_sets s) prior_hash of
        None \<Rightarrow> None
      | Some None \<Rightarrow> None
      | Some (Some parent_utxos) \<Rightarrow>
     (case Block_validate sha txh b parent_utxos (maxMintCoinsPerTx s) of
        Inl e \<Rightarrow> None
      | Inr None \<Rightarrow> None
      | Inr (Some new_utxos) \<Rightarrow>
     (case Block_getHash sha b of
        Inl e \<Rightarrow> None
      | Inr block_hash \<Rightarrow> Some block_hash))))))"

text \<open>A call that stores its block stores it under a hash that no stored block has.\<close>

definition stores_fresh :: "sha256_fn \<Rightarrow> txhash_fn \<Rightarrow> Blockchain \<Rightarrow> Block option \<Rightarrow> bool" where
  "stores_fresh sha txh s block =
     (case stores_under sha txh s block of
        None \<Rightarrow> True
      | Some block_hash \<Rightarrow> map_of (blocks s) block_hash = None)"

text \<open>The same of every call of a sequence, each on the state the call before has left.\<close>

fun unstored_calls ::
  "sha256_fn \<Rightarrow> txhash_fn \<Rightarrow> rounding \<Rightarrow> Blockchain \<Rightarrow> Block option list \<Rightarrow> bool" where
  "unstored_calls sha txh rnd s [] = True"
| "unstored_calls sha txh rnd s (c # cs) =
     (stores_fresh sha txh s c \<and> unstored_calls sha txh rnd (snd (extend sha txh rnd s c)) cs)"

text \<open>Every hash filed under a height is the hash of a stored block.\<close>

definition heights_stored :: "Blockchain \<Rightarrow> bool" where
  "heights_stored s \<longleftrightarrow>
     list_all (\<lambda>e. list_all (\<lambda>h. map_of (blocks s) h \<noteq> None) (snd e)) (block_heights s)"

text \<open>
  A rounding is sound when 1 is a float and a number that is not negative is rounded to a
  float that is not negative or to the positive infinity.
\<close>

definition sound_rounding :: "rounding \<Rightarrow> bool" where
  "sound_rounding rnd \<longleftrightarrow>
     rnd 1 = Finite 1 \<and> (\<forall>q\<ge>0. rnd q = PosInf \<or> (\<exists>q'\<ge>0. rnd q = Finite q'))"

text \<open>A work that is a float not below 0, or the positive infinity.\<close>

fun work_nonneg :: "pyfloat \<Rightarrow> bool" where
  "work_nonneg (Finite q) = (q \<ge> 0)"
| "work_nonneg PosInf = True"
| "work_nonneg NegInf = False"
| "work_nonneg NaN = False"

text \<open>
  What the constructor and every call of \<open>extend\<close> keep of the recorded work: there is
  some, none is negative or NaN, and each is recorded for a stored block.
\<close>

definition tip_inv :: "Blockchain \<Rightarrow> bool" where
  "tip_inv s \<longleftrightarrow>
     cumulative_work s \<noteq> [] \<and> genesisTarget s > 0
   \<and> list_all (\<lambda>e. work_nonneg (snd e)) (cumulative_work s)
   \<and> list_all (\<lambda>e. map_of (blocks s) (fst e) \<noteq> None) (cumulative_work s)"

section \<open>A worked chain\<close>

text \<open>
  Concrete data on which the theorems below are run.  The two digests are stand-ins for
  SHA-256 that the simplifier can compute: the number of bytes, and the number of inputs
  plus 7; the rounding is exact.  The genesis block hashes to 13, the coinbase transaction
  to 7 and the spending transaction to 8.
\<close>

definition sha_ex :: sha256_fn where
  "sha_ex bs = word_of_nat (length bs)"

definition txh_ex :: txhash_fn where
  "txh_ex tx = word_of_nat (length (getInputs tx)) + 7"

definition rnd_ex :: rounding where
  "rnd_ex q = Finite q"

definition free100 :: Output where
  "free100 = \<lparr>constraint = None, amount = 100\<rparr>"

definition free1000 :: Output where
  "free1000 = \<lparr>constraint = None, amount = 1000\<rparr>"

definition coinbase_ex :: Transaction where
  "coinbase_ex = \<lparr>inputs = None, outputs = Some [free100], data = None\<rparr>"

definition spend_ex :: Input where
  "spend_ex = \<lparr>txHash = 7, txIdx = 0, satisfier = VNone\<rparr>"

definition overspend_ex :: Transaction where
  "overspend_ex = \<lparr>inputs = Some [spend_ex], outputs = Some [free1000], data = None\<rparr>"

definition genesis_ex :: Block where
  "genesis_ex = Block_init\<lparr>target := Some 100000, prior_block_hash := Some 0, nonce := 0\<rparr>"

definition child_ex :: "Transaction list \<Rightarrow> Block" where
  "child_ex txs =
     setContents txh_ex (Block_init\<lparr>target := Some 100000, prior_block_hash := Some 13\<rparr>) txs"

definition chain_ex :: Blockchain where
  "chain_ex =
     \<lparr>maxMintCoinsPerTx = 100, blocks = [(13, genesis_ex)], block_heights = [(0, [13])],
      cumulative_work = [(13, Finite 1)], utxo_sets = [(13, Some [])], genesisTarget = 100000\<rparr>"

definition minted1000_ex :: Transaction where
  "minted1000_ex = \<lparr>inputs = None, outputs = Some [free1000], data = None\<rparr>"

definition no_outputs_ex :: Transaction where
  "no_outputs_ex = \<lparr>inputs = None, outputs = None, data = None\<rparr>"


definition orphan_ex :: Block where
  "orphan_ex = Block_init\<lparr>target := Some 100000, prior_block_hash := Some 5\<rparr>"

text \<open>A chain in which two blocks tie for the most cumulative work.\<close>

definition tie_ex :: Blockchain where
  "tie_ex =
     \<lparr>maxMintCoinsPerTx = 100,
      blocks = [(13, genesis_ex), (14, child_ex [coinbase_ex]), (15, child_ex [no_outputs_ex])],
      block_heights = [(0, [13]), (1, [14, 15])],
      cumulative_work = [(13, Finite 1), (14, Finite 2), (15, Finite 2)],
      utxo_sets = [(13, Some []), (14, Some [((7, 0), free100)]), (15, Some [])],
      genesisTarget = 100000\<rparr>"


text \<open>
  A chain whose targets are above every 256-bit hash, and two different blocks with the same
  header string: nonce 5 before target 110...0, and nonce 51 before target 10...0.
\<close>

definition target_g :: int where "target_g = 10 ^ 80"
definition target_a :: int where "target_a = 11 * 10 ^ 79"
definition target_b :: int where "target_b = 10 ^ 79"
definition target_c :: int where "target_c = 10 ^ 81"

definition genesis_big :: Block where
  "genesis_big = Block_init\<lparr>target := Some target_g, prior_block_hash := Some 0, nonce := 0\<rparr>"

definition chain_big :: Blockchain where
  "chain_big =
     \<lparr>maxMintCoinsPerTx = 100, blocks = [(88, genesis_big)], block_heights = [(0, [88])],
      cumulative_work = [(88, Finite 1)], utxo_sets = [(88, Some [])], genesisTarget = target_g\<rparr>"

definition twin_a :: Block where
  "twin_a = Block_init\<lparr>prior_block_hash := Some 88, nonce := 5, target := Some target_a\<rparr>"

definition twin_b :: Block where
  "twin_b = Block_init\<lparr>prior_block_hash := Some 88, nonce := 51, target := Some target_b\<rparr>"

definition child_of_a :: Block where
  "child_of_a = Block_init\<lparr>prior_block_hash := Some 89, target := Some target_c\<rparr>"

definition chain_a :: Blockchain where
  "chain_a =
     \<lparr>maxMintCoinsPerTx = 100, blocks = [(88, genesis_big), (89, twin_a)],
      block_heights = [(0, [88]), (1, [89])],
      cumulative_work = [(88, Finite 1), (89, Finite (21 / 11))],
      utxo_sets = [(88, Some []), (89, Some [])], genesisTarget = target_g\<rparr>"

definition chain_ac :: Blockchain where
  "chain_ac =
     \<lparr>maxMintCoinsPerTx = 100, blocks = [(88, genesis_big), (89, twin_a), (90, child_of_a)],
      block_heights = [(0, [88]), (1, [89]), (2, [90])],
      cumulative_work = [(88, Finite 1), (89, Finite (21 / 11)), (90, Finite (221 / 110))],
      utxo_sets = [(88, Some []), (89, Some []), (90, Some [])], genesisTarget = target_g\<rparr>"

definition chain_acb :: Blockchain where
  "chain_acb =
     \<lparr>maxMintCoinsPerTx = 100, blocks = [(88, genesis_big), (89, twin_b), (90, child_of_a)],
      block_heights = [(0, [88]), (1, [89, 89]), (2, [90])],
      cumulative_work = [(88, Finite 1), (89, Finite 11), (90, Finite (221 / 110))],
      utxo_sets = [(88, Some []), (89, Some []), (90, Some [])], genesisTarget = target_g\<rparr>"

section \<open>Transactions: the mint rule and the spending rule\<close>

lemma foldl_amount: "foldl (\<lambda>s out. s + amount out) a outs = a + sum_list (map amount outs)"
  by (induction outs arbitrary: a) auto

lemma validate_inputs_eq:
  "validate_inputs u ins a =
     (if list_all (input_accepted u) ins then Some (a + input_total u ins) else None)"
  by (induction ins arbitrary: a)
     (auto simp: input_accepted_def input_total_def Let_def split: option.splits)

text \<open>
  C3.  \<open>can_be_spent\<close> hands back whatever the constraint script returns: a script that
  returns the string \<open>yes\<close> makes it return that string, not a boolean, and
  \<open>Transaction.validate\<close>, which reads the truth value, lets the output be spent.
\<close>

theorem can_be_spent_non_boolean:
  "can_be_spent \<lparr>constraint = Some (\<lambda>x. Returns (VStr ''yes'')), amount = 5\<rparr> (VList []) = VStr ''yes''
   \<and> Transaction_validate
        \<lparr>inputs = Some [\<lparr>txHash = 1, txIdx = 0, satisfier = VList []\<rparr>],
         outputs = Some [\<lparr>constraint = None, amount = 5\<rparr>], data = None\<rparr>
        [((1, 0), \<lparr>constraint = Some (\<lambda>x. Returns (VStr ''yes'')), amount = 5\<rparr>)]"
  by (simp add: can_be_spent_def Transaction_validate_def utxo_key_of_def)

text \<open>
  The rest of what C3 says holds: no constraint lets every satisfier through, and a script
  that raises or returns \<open>False\<close> does not.
\<close>

lemma can_be_spent_no_constraint: "constraint out = None \<Longrightarrow> can_be_spent out sat = VBool True"
  by (simp add: can_be_spent_def)

lemma can_be_spent_fail_closed:
  "constraint out = Some c \<Longrightarrow> c sat = Raises \<or> c sat = Returns (VBool False) \<Longrightarrow>
   \<not> truthy (can_be_spent out sat)"
  by (auto simp: can_be_spent_def)

text \<open>
  C9, as the code has it.  A transaction without inputs passes \<open>validateMint m\<close> exactly
  when it has at least one output and the total of its outputs is at most \<open>m\<close>.
\<close>

theorem validateMint_iff:
  "inputs tx = None \<Longrightarrow>
   validateMint tx m \<longleftrightarrow> truthy_list (outputs tx) \<and> output_total tx \<le> m"
  by (auto simp: validateMint_def output_total_def split: option.splits list.splits)

theorem validateMint_iff_witness:
  "inputs coinbase_ex = None \<and> validateMint coinbase_ex 100 \<and> \<not> validateMint coinbase_ex 50"
  using validateMint_iff [of coinbase_ex 100] validateMint_iff [of coinbase_ex 50]
  by (simp add: coinbase_ex_def free100_def output_total_def)

text \<open>
  C9 as stated fails: without outputs the total is 0, which is within the cap 0, and
  \<open>validateMint\<close> is false.
\<close>

theorem validateMint_no_outputs_counterexample:
  "\<not> (validateMint \<lparr>inputs = None, outputs = Some [], data = None\<rparr> 0
        \<longleftrightarrow> output_total \<lparr>inputs = None, outputs = Some [], data = None\<rparr> \<le> 0)"
  by (simp add: validateMint_def output_total_def)

text \<open>
  C10.  A transaction whose inputs are the empty list passes \<open>Transaction.validate\<close> on
  every UTXO set, whatever its outputs, and fails \<open>validateMint\<close> for every cap.
\<close>

theorem validate_empty_inputs:
  "inputs tx = Some [] \<Longrightarrow> Transaction_validate tx u \<and> \<not> validateMint tx m"
  by (simp add: Transaction_validate_def validateMint_def)

theorem validate_empty_inputs_witness:
  "inputs \<lparr>inputs = Some [], outputs = Some [free1000], data = None\<rparr> = Some []
   \<and> Transaction_validate \<lparr>inputs = Some [], outputs = Some [free1000], data = None\<rparr> []
   \<and> \<not> validateMint \<lparr>inputs = Some [], outputs = Some [free1000], data = None\<rparr> 1000"
  using validate_empty_inputs [of "\<lparr>inputs = Some [], outputs = Some [free1000], data = None\<rparr>" "[]" 1000]
  by simp

text \<open>
  C2, as the code has it.  A transaction with at least one input, whose inputs reference
  pairwise different UTXO keys, passes \<open>Transaction.validate\<close> exactly when it has at
  least one output, every input references an entry of the UTXO set whose constraint lets
  the satisfier through, and the referenced amounts cover the output amounts.
\<close>

theorem Transaction_validate_spending:
  assumes "inputs tx = Some ins" and "ins \<noteq> []" and "distinct (map utxo_key_of ins)"
  shows "Transaction_validate tx u \<longleftrightarrow> truthy_list (outputs tx) \<and> spec_spend_valid tx u"
  using assms
  by (auto simp: Transaction_validate_def spec_spend_valid_def getInputs_def output_total_def
      validate_inputs_eq foldl_amount simp del: validate_inputs.simps
      split: option.splits list.splits)

theorem Transaction_validate_spending_witness:
  "inputs overspend_ex = Some [spend_ex] \<and> [spend_ex] \<noteq> [] \<and> distinct (map utxo_key_of [spend_ex])
   \<and> \<not> Transaction_validate overspend_ex [((7, 0), free100)]
   \<and> Transaction_validate overspend_ex [((7, 0), free1000)]"
  using Transaction_validate_spending [of overspend_ex "[spend_ex]" "[((7, 0), free100)]"]
    Transaction_validate_spending [of overspend_ex "[spend_ex]" "[((7, 0), free1000)]"]
  by (simp add: overspend_ex_def spend_ex_def free100_def free1000_def spec_spend_valid_def
      getInputs_def output_total_def input_accepted_def input_total_def utxo_key_of_def
      can_be_spent_def)

text \<open>
  C2 as stated fails twice.  A transaction with an accepted input of amount 10 and an empty
  output list is rejected, though its inputs cover its outputs; and a transaction whose two
  inputs reference the same entry of amount 10 passes with an output of 20.
\<close>

theorem Transaction_validate_counterexample:
  "\<not> (Transaction_validate
         \<lparr>inputs = Some [\<lparr>txHash = 1, txIdx = 0, satisfier = VNone\<rparr>], outputs = Some [], data = None\<rparr>
         [((1, 0), \<lparr>constraint = None, amount = 10\<rparr>)]
       \<longleftrightarrow>
       spec_spend_valid
         \<lparr>inputs = Some [\<lparr>txHash = 1, txIdx = 0, satisfier = VNone\<rparr>], outputs = Some [], data = None\<rparr>
         [((1, 0), \<lparr>constraint = None, amount = 10\<rparr>)])
   \<and> Transaction_validate
         \<lparr>inputs = Some [\<lparr>txHash = 1, txIdx = 0, satisfier = VNone\<rparr>, \<lparr>txHash = 1, txIdx = 0, satisfier = VNone\<rparr>],
          outputs = Some [\<lparr>constraint = None, amount = 20\<rparr>], data = None\<rparr>
         [((1, 0), \<lparr>constraint = None, amount = 10\<rparr>)]"
  by (simp add: Transaction_validate_def spec_spend_valid_def getInputs_def output_total_def
      input_accepted_def input_total_def utxo_key_of_def can_be_spent_def)

section \<open>The Merkle root\<close>

lemma be_bytes_map:
  "map (\<lambda>i. word_of_int (n div 256 ^ i)) (rev [0..<k]) = be_bytes k n"
proof (induction k arbitrary: n)
  case 0
  then show ?case by simp
next
  case (Suc k)
  have "[0..<Suc k] = 0 # map Suc [0..<k]"
    by (simp add: upt_conv_Cons map_Suc_upt del: upt_Suc)
  then have "map (\<lambda>i. word_of_int (n div 256 ^ i) :: byte) (rev [0..<Suc k])
      = map (\<lambda>i. word_of_int (n div 256 ^ Suc i)) (rev [0..<k]) @ [word_of_int n]"
    by (simp add: rev_map comp_def del: upt_Suc)
  moreover have "\<And>i. n div 256 ^ Suc i = (n div 256) div 256 ^ i"
    by (simp add: zdiv_zmult2_eq)
  moreover have "(word_of_int n :: byte) = word_of_int (n mod 256)"
    by (simp add: word_of_int_eq_iff take_bit_eq_mod)
  ultimately show ?case
    using Suc.IH [of "n div 256"] by (simp del: upt_Suc)
qed

lemma to_bytes32_in_range: "in_range n \<Longrightarrow> to_bytes32 n = Inr (be_bytes 32 n)"
  unfolding to_bytes32_def in_range_def using be_bytes_map [of n 32] by simp

lemma range2_Suc_Suc: "range2 (Suc (Suc n)) = 0 # map (\<lambda>i. i + 2) (range2 n)"
proof -
  have "[0..<Suc (Suc n)] = 0 # 1 # map (\<lambda>i. i + 2) [0..<n]"
    by (induction n) auto
  then show ?thesis
    unfolding range2_def by (simp add: filter_map comp_def del: upt_Suc)
qed

text \<open>
  The index loop over a level, started anywhere in the list, appends what pairing the rest
  from the left gives.
\<close>

lemma merkle_level_spec_gen:
  "list_all in_range xs \<Longrightarrow>
   merkle_level sha (pre @ xs) (map (\<lambda>i. length pre + i) (range2 (length xs))) acc
     = Inr (acc @ spec_pair_level sha xs)"
proof (induction sha xs arbitrary: pre acc rule: spec_pair_level.induct)
  case (1 sha l r rest)
  have "merkle_level sha ((pre @ [l, r]) @ rest)
          (map (\<lambda>i. length (pre @ [l, r]) + i) (range2 (length rest))) (acc @ [spec_combine sha l r])
        = Inr ((acc @ [spec_combine sha l r]) @ spec_pair_level sha rest)"
    using "1.prems" by (intro "1.IH") simp
  then show ?case
    using "1.prems"
    by (simp add: range2_Suc_Suc merkle_pair_def to_bytes32_in_range
        spec_combine_def comp_def nth_append add.commute add.left_commute)
next
  case (2 sha l)
  have "in_range 0" by (simp add: in_range_def)
  with 2 show ?case
    by (simp add: range2_def merkle_pair_def to_bytes32_in_range spec_combine_def nth_append)
next
  case (3 sha)
  then show ?case by (simp add: range2_def)
qed

lemma merkle_level_spec:
  "list_all in_range xs \<Longrightarrow>
   merkle_level sha xs (range2 (length xs)) [] = Inr (spec_pair_level sha xs)"
  using merkle_level_spec_gen [of xs sha "[]" "[]"] by simp

lemma in_range_uint: "in_range (uint (w :: 256 word))"
  unfolding in_range_def using uint_lt2p [of w] by simp

lemma spec_pair_level_in_range: "list_all in_range (spec_pair_level sha xs)"
  by (induction sha xs rule: spec_pair_level.induct) (auto simp: spec_combine_def in_range_uint)

lemma merkle_loop_spec:
  "list_all in_range hs \<Longrightarrow> hs \<noteq> [] \<Longrightarrow> merkle_loop sha hs = Inr (spec_merkle_root sha hs)"
proof (induction sha hs rule: spec_merkle_root.induct)
  case (1 sha)
  then show ?case by simp
next
  case (2 sha h)
  then show ?case by simp
next
  case (3 sha a b rest)
  have ne: "spec_pair_level sha (a # b # rest) \<noteq> []" by simp
  have "merkle_loop sha (a # b # rest) = merkle_loop sha (spec_pair_level sha (a # b # rest))"
    using merkle_level_spec [OF "3.prems"(1), of sha]
    by (subst merkle_loop.simps) (simp del: spec_pair_level.simps)
  also have "\<dots> = Inr (spec_merkle_root sha (spec_pair_level sha (a # b # rest)))"
    by (rule "3.IH" [OF spec_pair_level_in_range ne])
  finally show ?case by simp
qed

text \<open>
  C8.  The root of no hash is 0 and the root of one hash is that hash, untouched; and on
  256-bit hashes \<open>calcMerkleRoot\<close> returns the root the specification describes: levels
  paired from the left, a last unpaired hash paired with the literal 0, each pair combined by
  hashing the two 32-byte big-endian encodings, until one value remains.
\<close>

theorem calcMerkleRoot_spec:
  "(hashableList t = [] \<longrightarrow> calcMerkleRoot sha t = Inr 0)
   \<and> (hashableList t = [h] \<longrightarrow> calcMerkleRoot sha t = Inr h)
   \<and> (list_all in_range (hashableList t) \<longrightarrow>
        calcMerkleRoot sha t = Inr (spec_merkle_root sha (hashableList t)))"
  using merkle_loop_spec [of "hashableList t" sha]
  by (auto simp: calcMerkleRoot_def split: list.splits)

lemma length_be_bytes: "length (be_bytes k n) = k"
  by (induction k arbitrary: n) auto

lemma merkle_ex: "spec_merkle_root sha_ex [1, 2, 3] = 64"
  by (simp add: spec_combine_def sha_ex_def length_be_bytes)

theorem calcMerkleRoot_spec_witness:
  "list_all in_range [1, 2, 3]
   \<and> calcMerkleRoot sha_ex \<lparr>objects = [], hashableList = [1, 2, 3]\<rparr> = Inr 64
   \<and> calcMerkleRoot sha_ex \<lparr>objects = [], hashableList = [5]\<rparr> = Inr 5
   \<and> calcMerkleRoot sha_ex \<lparr>objects = [], hashableList = []\<rparr> = Inr 0"
  using calcMerkleRoot_spec [of "\<lparr>objects = [], hashableList = [1, 2, 3]\<rparr>" sha_ex 0]
    calcMerkleRoot_spec [of "\<lparr>objects = [], hashableList = [5]\<rparr>" sha_ex 5]
    calcMerkleRoot_spec [of "\<lparr>objects = [], hashableList = []\<rparr>" sha_ex 0]
  by (simp add: merkle_ex in_range_def del: spec_merkle_root.simps)

section \<open>Block validation\<close>

lemma dom_add_outputs:
  "map_of cu k \<noteq> None \<Longrightarrow> map_of (add_outputs tx_hash idx outs cu) k \<noteq> None"
  by (induction outs arbitrary: idx cu) (auto simp: update_conv')



lemma spend_inputs_Cons:
  "spend_inputs cu (inp # rest) spent =
     (if utxo_key_of inp \<in> set spent \<or> \<not> input_accepted cu inp then None
      else spend_inputs cu rest (spent @ [utxo_key_of inp]))"
  by (simp add: input_accepted_def Let_def split: option.splits)

text \<open>
  The inner loop accepts the inputs of a transaction exactly when their keys are pairwise
  different, none is spent already, and the running view accepts each of them.
\<close>

lemma spend_inputs_eq:
  "spend_inputs cu ins spent =
     (if distinct (map utxo_key_of ins) \<and> list_all (\<lambda>inp. utxo_key_of inp \<notin> set spent) ins
         \<and> list_all (input_accepted cu) ins
      then Some (spent @ map utxo_key_of ins) else None)"
proof (induction ins arbitrary: spent)
  case Nil
  then show ?case by simp
next
  case (Cons inp rest)
  show ?case
    unfolding spend_inputs_Cons Cons.IH
    by (auto simp: list_all_iff) (metis imageI)+
qed

lemma spend_inputs_inv:
  assumes "spend_inputs cu ins spent = Some spent'" and "spent_inv (cu, spent)"
  shows "spent_inv (cu, spent')"
  using assms
  by (auto simp: spend_inputs_eq spent_inv_def list_all_iff input_accepted_def
      split: if_splits option.splits)

lemma spent_inv_add_outputs:
  "spent_inv (cu, spent) \<Longrightarrow> spent_inv (add_outputs h idx outs cu, spent)"
  unfolding spent_inv_def list_all_iff using dom_add_outputs by simp

lemma apply_txs_inv:
  "apply_txs txh m idx txs st = Some st' \<Longrightarrow> spent_inv st \<Longrightarrow> spent_inv st'"
proof (induction txs arbitrary: idx st)
  case Nil
  then show ?case by simp
next
  case (Cons tx rest)
  obtain cu spent where st: "st = (cu, spent)" by (cases st)
  let ?cu' = "if truthy_list (outputs tx)
              then (case outputs tx of
                      None \<Rightarrow> cu
                    | Some outs \<Rightarrow> add_outputs (Transaction_getHash txh tx) 0 outs cu)
              else cu"
  from Cons.prems(1) obtain spent1 where
    step: "(if idx = 0
            then (if (case inputs tx of Some ins \<Rightarrow> True | None \<Rightarrow> False)
                     \<or> (truthy_list (outputs tx) \<and> \<not> validateMint tx m)
                  then None else Some spent)
            else (case inputs tx of None \<Rightarrow> None | Some ins \<Rightarrow> spend_inputs cu ins spent)) = Some spent1"
    and rest: "apply_txs txh m (idx + 1) rest (?cu', spent1) = Some st'"
    unfolding st by (auto split: option.splits)
  from step Cons.prems(2) have "spent_inv (cu, spent1)"
    unfolding st by (auto split: if_splits option.splits dest: spend_inputs_inv)
  then have "spent_inv (?cu', spent1)"
    by (auto split: option.splits intro: spent_inv_add_outputs)
  with Cons.IH [OF rest] show ?case .
qed

text \<open>The final loop finds every spent key, and removes exactly the spent keys.\<close>

lemma del_spent_ok:
  "distinct spent \<Longrightarrow> list_all (\<lambda>k. map_of cu k \<noteq> None) spent \<Longrightarrow>
   \<exists>r. del_spent spent cu = Inr r \<and> (\<forall>k. map_of r k = (if k \<in> set spent then None else map_of cu k))"
proof (induction spent arbitrary: cu)
  case Nil
  then show ?case by simp
next
  case (Cons k rest)
  have "list_all (\<lambda>k'. map_of (AList.delete k cu) k' \<noteq> None) rest"
    using Cons.prems by (auto simp: list_all_iff delete_conv')
  with Cons.IH [of "AList.delete k cu"] Cons.prems(1)
  obtain r where "del_spent rest (AList.delete k cu) = Inr r"
    and "\<forall>k'. map_of r k' = (if k' \<in> set rest then None else map_of (AList.delete k cu) k')"
    by auto
  then show ?case
    using Cons.prems by (auto simp: delete_conv')
qed


lemma Block_validate_below:
  "hash_below_target sha b \<Longrightarrow>
   Block_validate sha txh b u m =
     (case objects (contents (block_contents b)) of
        [] \<Rightarrow> Inr (Some u)
      | tx # rest \<Rightarrow>
          (case apply_txs txh m 0 (objects (contents (block_contents b))) (u, []) of
             None \<Rightarrow> Inr None
           | Some (final_utxos, spent) \<Rightarrow>
               (case del_spent spent final_utxos of Inl e \<Rightarrow> Inl e | Inr r \<Rightarrow> Inr (Some r))))"
  by (auto simp: hash_below_target_def Block_validate_def Let_def split: sum.splits option.splits)

text \<open>
  A block that meets its proof of work is valid or invalid: \<open>Block.validate\<close> raises
  nothing on it, and in particular finds every spent key when it deletes them.
\<close>

lemma Block_validate_returns:
  assumes "hash_below_target sha b"
  shows "\<exists>r. Block_validate sha txh b u m = Inr r"
proof (cases "apply_txs txh m 0 (objects (contents (block_contents b))) (u, [])")
  case None
  then show ?thesis
    unfolding Block_validate_below [OF assms]
    by (cases "objects (contents (block_contents b))") (simp_all del: apply_txs.simps)
next
  case (Some st)
  obtain fu spent where st: "st = (fu, spent)" by (cases st)
  have "spent_inv (u, [])" by (simp add: spent_inv_def)
  with apply_txs_inv [OF Some] have "spent_inv (fu, spent)" unfolding st .
  with del_spent_ok [of spent fu] obtain r where "del_spent spent fu = Inr r"
    by (auto simp: spent_inv_def)
  with Some show ?thesis
    unfolding Block_validate_below [OF assms] st
    by (cases "objects (contents (block_contents b))") (simp_all del: apply_txs.simps)
qed

text \<open>Unfolding the worked chain.\<close>

lemmas ex_defs = hash_below_target_def Block_getHash_def child_ex_def setContents_def
  HashableMerkleTree_init_def Let_def Block_init_def calcMerkleRoot_def Transaction_getHash_def
  txh_ex_def getInputs_def sha_ex_def encode_def str_opt_def str_int_def str_nat.simps
  genesis_ex_def

lemma objects_child_ex: "objects (contents (block_contents (child_ex txs))) = txs"
  by (simp add: child_ex_def setContents_def HashableMerkleTree_init_def Let_def)

text \<open>
  C4, as the code has it.  A block that meets its proof of work and has a first transaction
  is invalid unless that transaction has no inputs field and either has no outputs or passes
  \<open>validateMint\<close>: a first transaction with inputs present, and a coinbase with outputs
  that fails \<open>validateMint\<close>, invalidate the block.
\<close>

theorem Block_validate_first_tx:
  assumes "hash_below_target sha b"
    and "objects (contents (block_contents b)) = tx # rest"
    and "\<not> (inputs tx = None \<and> (\<not> truthy_list (outputs tx) \<or> validateMint tx m))"
  shows "Block_validate sha txh b u m = Inr None"
  using assms(2,3) unfolding Block_validate_below [OF assms(1)]
  by (auto split: option.splits)

lemma below_ex1: "hash_below_target sha_ex (child_ex [overspend_ex])"
  by (simp add: ex_defs overspend_ex_def)

lemma below_ex2: "hash_below_target sha_ex (child_ex [minted1000_ex])"
  by (simp add: ex_defs minted1000_ex_def)

lemma below_ex3: "hash_below_target sha_ex (child_ex [no_outputs_ex])"
  by (simp add: ex_defs no_outputs_ex_def)

theorem Block_validate_first_tx_witness:
  "hash_below_target sha_ex (child_ex [overspend_ex])
   \<and> inputs overspend_ex \<noteq> None
   \<and> Block_validate sha_ex txh_ex (child_ex [overspend_ex]) [((7, 0), free100)] 100 = Inr None
   \<and> hash_below_target sha_ex (child_ex [minted1000_ex])
   \<and> inputs minted1000_ex = None \<and> \<not> validateMint minted1000_ex 100
   \<and> Block_validate sha_ex txh_ex (child_ex [minted1000_ex]) [] 100 = Inr None"
  using Block_validate_first_tx [OF below_ex1 objects_child_ex, of 100 txh_ex "[((7, 0), free100)]"]
    Block_validate_first_tx [OF below_ex2 objects_child_ex, of 100 txh_ex "[]"]
    below_ex1 below_ex2
  by (simp add: overspend_ex_def minted1000_ex_def validateMint_def free1000_def)

text \<open>
  C4 as stated fails: a block whose only transaction is a coinbase without outputs meets its
  proof of work and is valid, though the coinbase fails \<open>validateMint\<close>.
\<close>

theorem Block_validate_empty_coinbase_counterexample:
  "hash_below_target sha_ex (child_ex [no_outputs_ex])
   \<and> \<not> validateMint no_outputs_ex 100
   \<and> Block_validate sha_ex txh_ex (child_ex [no_outputs_ex]) [] 100 = Inr (Some [])"
  using below_ex3
  by (simp add: Block_validate_below objects_child_ex no_outputs_ex_def validateMint_def)











section \<open>Extending the chain and choosing the tip\<close>

lemma record_block_not_False: "fst (record_block rnd s b p u h) \<noteq> Inr False"
  by (simp add: record_block_def Let_def split: option.splits sum.splits)

text \<open>
  C6.  A call of \<open>extend\<close> that returns \<open>False\<close> leaves the whole state of the chain
  as it was: the blocks, the heights, the cumulative work and the UTXO snapshots.
\<close>

theorem extend_False_unchanged:
  "fst (extend sha txh rnd s block) = Inr False \<Longrightarrow> snd (extend sha txh rnd s block) = s"
  using record_block_not_False
  by (auto simp: extend_def split: option.splits sum.splits)

lemma extend_orphan_ex: "fst (extend sha_ex txh_ex rnd_ex chain_ex (Some orphan_ex)) = Inr False"
  by (simp add: extend_def orphan_ex_def Block_init_def chain_ex_def)

lemma validate_bad_ex:
  "Block_validate sha_ex txh_ex (child_ex [overspend_ex]) [] 100 = Inr None"
  using below_ex1
  by (simp add: Block_validate_below objects_child_ex overspend_ex_def)

lemma extend_bad_ex:
  "fst (extend sha_ex txh_ex rnd_ex chain_ex (Some (child_ex [overspend_ex]))) = Inr False"
proof -
  have "prior_block_hash (child_ex [overspend_ex]) = Some 13"
    by (simp add: child_ex_def setContents_def Let_def Block_init_def)
  then show ?thesis
    using validate_bad_ex by (simp add: extend_def chain_ex_def)
qed

theorem extend_False_unchanged_witness:
  "fst (extend sha_ex txh_ex rnd_ex chain_ex (Some orphan_ex)) = Inr False
   \<and> snd (extend sha_ex txh_ex rnd_ex chain_ex (Some orphan_ex)) = chain_ex
   \<and> fst (extend sha_ex txh_ex rnd_ex chain_ex (Some (child_ex [overspend_ex]))) = Inr False
   \<and> snd (extend sha_ex txh_ex rnd_ex chain_ex (Some (child_ex [overspend_ex]))) = chain_ex"
  using extend_False_unchanged [OF extend_orphan_ex] extend_False_unchanged [OF extend_bad_ex]
    extend_orphan_ex extend_bad_ex
  by simp

text \<open>The order of floats that are not NaN.\<close>

lemma float_gt_irrefl: "\<not> float_gt x x"
  by (cases x) auto

lemma float_gt_trans: "float_gt c b \<Longrightarrow> float_gt b a \<Longrightarrow> float_gt c a"
  by (cases a; cases b; cases c) auto

lemma float_gt_le_trans:
  "float_gt c b \<Longrightarrow> \<not> float_gt a b \<Longrightarrow> a \<noteq> NaN \<Longrightarrow> b \<noteq> NaN \<Longrightarrow> float_gt c a"
  by (cases a; cases b; cases c) auto

lemma float_gt_asym: "float_gt a b \<Longrightarrow> \<not> float_gt b a"
  by (cases a; cases b) auto

lemma getTip_loop_char:
  assumes "list_all (\<lambda>e. map_of blks (fst e) \<noteq> None) cw"
    and "list_all (\<lambda>e. snd e \<noteq> NaN) cw"
    and "mw \<noteq> NaN"
  shows "(list_all (\<lambda>e. \<not> float_gt (snd e) mw) cw \<and> getTip_loop blks cw mw tip = Inr tip)
       \<or> (\<exists>i<length cw. \<exists>b.
             getTip_loop blks cw mw tip = Inr (Some b)
           \<and> map_of blks (fst (cw ! i)) = Some b
           \<and> float_gt (snd (cw ! i)) mw
           \<and> (\<forall>j<i. float_gt (snd (cw ! i)) (snd (cw ! j)))
           \<and> (\<forall>j<length cw. \<not> float_gt (snd (cw ! j)) (snd (cw ! i))))"
  using assms
proof (induction cw arbitrary: mw tip)
  case Nil
  then show ?case by simp
next
  case (Cons e rest)
  obtain h w where e: "e = (h, w)" by (cases e)
  from Cons.prems obtain b0 where b0: "map_of blks h = Some b0"
    and keys: "list_all (\<lambda>e. map_of blks (fst e) \<noteq> None) rest"
    and nn: "list_all (\<lambda>e. snd e \<noteq> NaN) rest" and wn: "w \<noteq> NaN"
    by (auto simp: e)
  show ?case
  proof (cases "float_gt w mw")
    case True
    then have step: "getTip_loop blks (e # rest) mw tip = getTip_loop blks rest w (Some b0)"
      by (simp add: e b0)
    from Cons.IH [OF keys nn wn, of "Some b0"] show ?thesis
    proof (elim disjE conjE exE)
      assume le: "list_all (\<lambda>e. \<not> float_gt (snd e) w) rest"
        and res: "getTip_loop blks rest w (Some b0) = Inr (Some b0)"
      have "\<forall>j<length (e # rest). \<not> float_gt (snd ((e # rest) ! j)) w"
      proof (intro allI impI)
        fix j assume "j < length (e # rest)"
        then show "\<not> float_gt (snd ((e # rest) ! j)) w"
          using le by (cases j) (auto simp: e float_gt_irrefl list_all_length)
      qed
      then have "0 < length (e # rest) \<and> getTip_loop blks (e # rest) mw tip = Inr (Some b0)
           \<and> map_of blks (fst ((e # rest) ! 0)) = Some b0
           \<and> float_gt (snd ((e # rest) ! 0)) mw
           \<and> (\<forall>j<0. float_gt (snd ((e # rest) ! 0)) (snd ((e # rest) ! j)))
           \<and> (\<forall>j<length (e # rest). \<not> float_gt (snd ((e # rest) ! j)) (snd ((e # rest) ! 0)))"
        using step res True b0 by (simp add: e)
      then show ?thesis by blast
    next
      fix i b
      assume i: "i < length rest"
        and res: "getTip_loop blks rest w (Some b0) = Inr (Some b)"
        and blk: "map_of blks (fst (rest ! i)) = Some b"
        and gt: "float_gt (snd (rest ! i)) w"
        and before: "\<forall>j<i. float_gt (snd (rest ! i)) (snd (rest ! j))"
        and all: "\<forall>j<length rest. \<not> float_gt (snd (rest ! j)) (snd (rest ! i))"
      have b': "\<forall>j<Suc i. float_gt (snd ((e # rest) ! Suc i)) (snd ((e # rest) ! j))"
      proof (intro allI impI)
        fix j assume "j < Suc i"
        then show "float_gt (snd ((e # rest) ! Suc i)) (snd ((e # rest) ! j))"
          using gt before by (cases j) (auto simp: e)
      qed
      have a': "\<forall>j<length (e # rest). \<not> float_gt (snd ((e # rest) ! j)) (snd ((e # rest) ! Suc i))"
      proof (intro allI impI)
        fix j assume "j < length (e # rest)"
        then show "\<not> float_gt (snd ((e # rest) ! j)) (snd ((e # rest) ! Suc i))"
          using all float_gt_asym [OF gt] by (cases j) (auto simp: e)
      qed
      have "Suc i < length (e # rest) \<and> getTip_loop blks (e # rest) mw tip = Inr (Some b)
           \<and> map_of blks (fst ((e # rest) ! Suc i)) = Some b
           \<and> float_gt (snd ((e # rest) ! Suc i)) mw"
        using i step res blk float_gt_trans [OF gt True] by simp
      with b' a' show ?thesis by blast
    qed
  next
    case False
    then have step: "getTip_loop blks (e # rest) mw tip = getTip_loop blks rest mw tip"
      by (simp add: e)
    from Cons.IH [OF keys nn Cons.prems(3), of tip] show ?thesis
    proof (elim disjE conjE exE)
      assume "list_all (\<lambda>e. \<not> float_gt (snd e) mw) rest"
        and "getTip_loop blks rest mw tip = Inr tip"
      then show ?thesis using step False by (simp add: e)
    next
      fix i b
      assume i: "i < length rest"
        and res: "getTip_loop blks rest mw tip = Inr (Some b)"
        and blk: "map_of blks (fst (rest ! i)) = Some b"
        and gt: "float_gt (snd (rest ! i)) mw"
        and before: "\<forall>j<i. float_gt (snd (rest ! i)) (snd (rest ! j))"
        and all: "\<forall>j<length rest. \<not> float_gt (snd (rest ! j)) (snd (rest ! i))"
      have gw: "float_gt (snd (rest ! i)) w"
        by (rule float_gt_le_trans [OF gt False wn Cons.prems(3)])
      have b': "\<forall>j<Suc i. float_gt (snd ((e # rest) ! Suc i)) (snd ((e # rest) ! j))"
      proof (intro allI impI)
        fix j assume "j < Suc i"
        then show "float_gt (snd ((e # rest) ! Suc i)) (snd ((e # rest) ! j))"
          using gw before by (cases j) (auto simp: e)
      qed
      have a': "\<forall>j<length (e # rest). \<not> float_gt (snd ((e # rest) ! j)) (snd ((e # rest) ! Suc i))"
      proof (intro allI impI)
        fix j assume "j < length (e # rest)"
        then show "\<not> float_gt (snd ((e # rest) ! j)) (snd ((e # rest) ! Suc i))"
          using all float_gt_asym [OF gw] by (cases j) (auto simp: e)
      qed
      have "Suc i < length (e # rest) \<and> getTip_loop blks (e # rest) mw tip = Inr (Some b)
           \<and> map_of blks (fst ((e # rest) ! Suc i)) = Some b
           \<and> float_gt (snd ((e # rest) ! Suc i)) mw"
        using i step res blk gt by simp
      with b' a' show ?thesis by blast
    qed
  qed
qed

text \<open>
  C7.  On a chain in which every hash with recorded work is a stored block, no recorded work
  is NaN and some recorded work is above the initial \<open>-1\<close> of the search, \<open>getTip\<close>
  returns a stored block: one whose cumulative work no recorded work exceeds, and the first
  such in the order of insertion, every entry before it having strictly less work.
\<close>

theorem getTip_first_maximum:
  assumes stored: "list_all (\<lambda>e. map_of (blocks s) (fst e) \<noteq> None) (cumulative_work s)"
    and no_nan: "list_all (\<lambda>e. snd e \<noteq> NaN) (cumulative_work s)"
    and above: "list_ex (\<lambda>e. float_gt (snd e) (Finite (- 1))) (cumulative_work s)"
  shows "\<exists>i<length (cumulative_work s). \<exists>b.
           getTip s = Inr (Some b)
         \<and> map_of (blocks s) (fst (cumulative_work s ! i)) = Some b
         \<and> (\<forall>j<length (cumulative_work s).
               \<not> float_gt (snd (cumulative_work s ! j)) (snd (cumulative_work s ! i)))
         \<and> (\<forall>j<i. float_gt (snd (cumulative_work s ! i)) (snd (cumulative_work s ! j)))"
proof -
  have "Finite (- 1) \<noteq> NaN" by simp
  moreover from above have "\<not> list_all (\<lambda>e. \<not> float_gt (snd e) (Finite (- 1))) (cumulative_work s)"
    by (auto simp: list_all_iff list_ex_iff)
  ultimately show ?thesis
    using getTip_loop_char [OF stored no_nan, of "Finite (- 1)" None]
    unfolding getTip_def by blast
qed

lemma tie_ex_hyps:
  "list_all (\<lambda>e. map_of (blocks tie_ex) (fst e) \<noteq> None) (cumulative_work tie_ex)"
  "list_all (\<lambda>e. snd e \<noteq> NaN) (cumulative_work tie_ex)"
  "list_ex (\<lambda>e. float_gt (snd e) (Finite (- 1))) (cumulative_work tie_ex)"
  by (simp_all add: tie_ex_def)

lemma tie_ex_tip:
  "cumulative_work tie_ex = [(13, Finite 1), (14, Finite 2), (15, Finite 2)]"
  "getTip tie_ex = Inr (Some (child_ex [coinbase_ex]))"
  by (simp_all add: tie_ex_def getTip_def)

theorem getTip_first_maximum_witness:
  "list_all (\<lambda>e. map_of (blocks tie_ex) (fst e) \<noteq> None) (cumulative_work tie_ex)
   \<and> list_all (\<lambda>e. snd e \<noteq> NaN) (cumulative_work tie_ex)
   \<and> list_ex (\<lambda>e. float_gt (snd e) (Finite (- 1))) (cumulative_work tie_ex)
   \<and> cumulative_work tie_ex = [(13, Finite 1), (14, Finite 2), (15, Finite 2)]
   \<and> getTip tie_ex = Inr (Some (child_ex [coinbase_ex]))
   \<and> (\<exists>i<length (cumulative_work tie_ex). \<exists>b.
           getTip tie_ex = Inr (Some b)
         \<and> map_of (blocks tie_ex) (fst (cumulative_work tie_ex ! i)) = Some b
         \<and> (\<forall>j<length (cumulative_work tie_ex).
               \<not> float_gt (snd (cumulative_work tie_ex ! j)) (snd (cumulative_work tie_ex ! i)))
         \<and> (\<forall>j<i. float_gt (snd (cumulative_work tie_ex ! i)) (snd (cumulative_work tie_ex ! j))))"
  by (intro conjI tie_ex_hyps tie_ex_tip getTip_first_maximum [OF tie_ex_hyps])

section \<open>The bookkeeping of accepted blocks\<close>

lemma find_height_file_other:
  "x \<noteq> hc \<Longrightarrow> find_height (file_under_height k hc bh) x = find_height bh x"
proof -
  have a: "find_height (AList.map_entry k (\<lambda>l. l @ [hc]) xs) x = find_height xs x" if "x \<noteq> hc" for xs
    using that by (induction xs) auto
  have b: "find_height (AList.update k [] xs) x = find_height xs x" if "map_of xs k = None" for xs
    using that by (induction xs) (auto split: if_splits)
  assume "x \<noteq> hc"
  then show ?thesis
    by (simp add: file_under_height_def a b split: option.splits)
qed

lemma find_height_file_own:
  assumes "list_all (\<lambda>e. hc \<notin> set (snd e)) bh"
  shows "find_height (file_under_height k hc bh) hc = Some k"
proof -
  have a: "find_height (AList.map_entry k (\<lambda>l. l @ [hc]) xs) hc = Some k"
    if "list_all (\<lambda>e. hc \<notin> set (snd e)) xs" "map_of xs k \<noteq> None" for xs
    using that by (induction xs) (auto split: if_splits)
  have b: "list_all (\<lambda>e. hc \<notin> set (snd e)) (AList.update k [] xs)"
    if "list_all (\<lambda>e. hc \<notin> set (snd e)) xs" for xs
    using that by (induction xs) auto
  show ?thesis
  proof (cases "map_of bh k")
    case None
    have "map_of (AList.update k [] bh) k \<noteq> None" by (simp add: update_conv')
    from a [OF b [OF assms] this] None show ?thesis
      by (simp add: file_under_height_def)
  next
    case (Some l)
    then have "map_of bh k \<noteq> None" by simp
    from a [OF assms this] Some show ?thesis
      by (simp add: file_under_height_def)
  qed
qed

lemma all_lists_file:
  assumes "list_all (\<lambda>e. list_all P (snd e)) bh" and "P hc"
  shows "list_all (\<lambda>e. list_all P (snd e)) (file_under_height k hc bh)"
proof -
  have a: "list_all (\<lambda>e. list_all P (snd e)) (AList.update k [] xs)"
    if "list_all (\<lambda>e. list_all P (snd e)) xs" for xs
    using that by (induction xs) auto
  have b: "list_all (\<lambda>e. list_all P (snd e)) (AList.map_entry k (\<lambda>l. l @ [hc]) xs)"
    if "list_all (\<lambda>e. list_all P (snd e)) xs" for xs
    using that assms(2) by (induction xs) auto
  show ?thesis
    unfolding file_under_height_def using assms(1) by (auto split: option.splits intro: a b)
qed

text \<open>What \<open>record_block\<close> leaves of the state.\<close>

lemma record_block_blocks:
  "blocks (snd (record_block rnd s b p u h)) = AList.update h b (blocks s)"
  by (simp add: record_block_def Let_def split: option.splits sum.splits)

lemma record_block_params:
  "maxMintCoinsPerTx (snd (record_block rnd s b p u h)) = maxMintCoinsPerTx s"
  "genesisTarget (snd (record_block rnd s b p u h)) = genesisTarget s"
  by (simp_all add: record_block_def Let_def split: option.splits sum.splits)

lemma record_block_utxo_sets:
  "utxo_sets (snd (record_block rnd s b p u h)) = AList.update h (Some u) (utxo_sets s)"
  by (simp add: record_block_def Let_def split: option.splits sum.splits)

lemma record_block_work_other:
  "x \<noteq> h \<Longrightarrow> map_of (cumulative_work (snd (record_block rnd s b p u h))) x = map_of (cumulative_work s) x"
  by (simp add: record_block_def Let_def update_conv' split: option.splits sum.splits)

lemma record_block_height_other:
  "x \<noteq> h \<Longrightarrow>
   find_height (block_heights (snd (record_block rnd s b p u h))) x = find_height (block_heights s) x"
  by (simp add: record_block_def Let_def find_height_file_other split: option.splits sum.splits)

lemma record_block_heights:
  "block_heights (snd (record_block rnd s b p u h)) = block_heights s
   \<or> (\<exists>k. block_heights (snd (record_block rnd s b p u h)) = file_under_height k h (block_heights s))"
  by (auto simp: record_block_def Let_def split: option.splits sum.splits)

lemma record_block_heights_stored:
  assumes "heights_stored s"
  shows "heights_stored (snd (record_block rnd s b p u h))"
proof -
  define P where "P x \<longleftrightarrow> map_of (AList.update h b (blocks s)) x \<noteq> None" for x
  have "P h" by (simp add: P_def update_conv')
  from assms have old: "list_all (\<lambda>e. list_all P (snd e)) (block_heights s)"
    unfolding heights_stored_def P_def by (auto simp: list_all_iff update_conv')
  have "list_all (\<lambda>e. list_all P (snd e)) (block_heights (snd (record_block rnd s b p u h)))"
    using record_block_heights [of rnd s b p u h] all_lists_file [OF old \<open>P h\<close>] old
    by auto
  then show ?thesis
    unfolding heights_stored_def record_block_blocks P_def .
qed

text \<open>What a call of \<open>record_block\<close> that returns \<open>True\<close> has written.\<close>

lemma record_block_True:
  assumes "fst (record_block rnd s b p u h) = Inr True"
    and "list_all (\<lambda>e. h \<notin> set (snd e)) (block_heights s)"
  shows "\<exists>ph pw w. find_height (block_heights s) p = Some ph
           \<and> find_height (block_heights (snd (record_block rnd s b p u h))) h = Some (ph + 1)
           \<and> map_of (cumulative_work s) p = Some pw
           \<and> getWork rnd (genesisTarget s) (target b) = Inr w
           \<and> map_of (cumulative_work (snd (record_block rnd s b p u h))) h = Some (float_add rnd pw w)"
proof -
  from assms(1) obtain ph where ph: "find_height (block_heights s) p = Some ph"
    by (auto simp: record_block_def Let_def split: option.splits sum.splits)
  from assms(1) ph obtain pw w where pw: "map_of (cumulative_work s) p = Some pw"
    and w: "getWork rnd (genesisTarget s) (target b) = Inr w"
    by (auto simp: record_block_def Let_def split: option.splits sum.splits)
  have "find_height (block_heights (snd (record_block rnd s b p u h))) h = Some (ph + 1)"
    using find_height_file_own [OF assms(2), of "ph + 1"] ph pw w
    by (simp add: record_block_def Let_def)
  moreover have "map_of (cumulative_work (snd (record_block rnd s b p u h))) h = Some (float_add rnd pw w)"
    using ph pw w by (simp add: record_block_def Let_def update_conv')
  ultimately show ?thesis using ph pw w by blast
qed

text \<open>A call of \<open>extend\<close> leaves the state as it was, without success, or records the block.\<close>

lemma extend_cases:
  "(snd (extend sha txh rnd s c) = s \<and> fst (extend sha txh rnd s c) \<noteq> Inr True)
   \<or> (\<exists>b p parent up u h.
         c = Some b \<and> prior_block_hash b = Some p \<and> map_of (blocks s) p = Some parent
       \<and> map_of (utxo_sets s) p = Some (Some up)
       \<and> Block_validate sha txh b up (maxMintCoinsPerTx s) = Inr (Some u)
       \<and> Block_getHash sha b = Inr h
       \<and> extend sha txh rnd s c = record_block rnd s b p u h)"
  by (auto simp: extend_def split: option.splits sum.splits)

lemma extend_unstored:
  "stores_under sha txh s c = None \<Longrightarrow>
   snd (extend sha txh rnd s c) = s \<and> fst (extend sha txh rnd s c) \<noteq> Inr True"
  by (auto simp: extend_def stores_under_def split: option.splits sum.splits)

lemma extend_stored:
  "stores_under sha txh s c = Some h \<Longrightarrow>
   \<exists>b p parent up u.
       c = Some b \<and> prior_block_hash b = Some p \<and> map_of (blocks s) p = Some parent
     \<and> map_of (utxo_sets s) p = Some (Some up)
     \<and> Block_validate sha txh b up (maxMintCoinsPerTx s) = Inr (Some u)
     \<and> Block_getHash sha b = Inr h
     \<and> extend sha txh rnd s c = record_block rnd s b p u h"
  by (auto simp: extend_def stores_under_def split: option.splits sum.splits)

lemma bookkeeping_iff:
  "bookkeeping sha txh rnd s b \<longleftrightarrow>
     (\<exists>h p parent ph pw w snapshot parent_utxos.
         Block_getHash sha b = Inr h \<and> prior_block_hash b = Some p
       \<and> map_of (blocks s) h = Some b \<and> map_of (blocks s) p = Some parent
       \<and> find_height (block_heights s) h = Some (ph + 1)
       \<and> find_height (block_heights s) p = Some ph
       \<and> map_of (cumulative_work s) h = Some (float_add rnd pw w)
       \<and> map_of (cumulative_work s) p = Some pw
       \<and> getWork rnd (genesisTarget s) (target b) = Inr w
       \<and> map_of (utxo_sets s) h = Some (Some snapshot)
       \<and> map_of (utxo_sets s) p = Some (Some parent_utxos)
       \<and> Block_validate sha txh b parent_utxos (maxMintCoinsPerTx s) = Inr (Some snapshot))"
proof
  show "\<exists>h p parent ph pw w snapshot parent_utxos.
         Block_getHash sha b = Inr h \<and> prior_block_hash b = Some p
       \<and> map_of (blocks s) h = Some b \<and> map_of (blocks s) p = Some parent
       \<and> find_height (block_heights s) h = Some (ph + 1)
       \<and> find_height (block_heights s) p = Some ph
       \<and> map_of (cumulative_work s) h = Some (float_add rnd pw w)
       \<and> map_of (cumulative_work s) p = Some pw
       \<and> getWork rnd (genesisTarget s) (target b) = Inr w
       \<and> map_of (utxo_sets s) h = Some (Some snapshot)
       \<and> map_of (utxo_sets s) p = Some (Some parent_utxos)
       \<and> Block_validate sha txh b parent_utxos (maxMintCoinsPerTx s) = Inr (Some snapshot)"
    if bk: "bookkeeping sha txh rnd s b"
  proof -
    obtain h where h: "Block_getHash sha b = Inr h"
      using bk by (cases "Block_getHash sha b") (simp_all add: bookkeeping_def)
    obtain p where p: "prior_block_hash b = Some p"
      using bk by (cases "prior_block_hash b") (simp_all add: bookkeeping_def h)
    from bk have stored: "map_of (blocks s) h = Some b" "map_of (blocks s) p \<noteq> None"
      by (simp_all add: bookkeeping_def h p)
    then obtain parent where parent: "map_of (blocks s) p = Some parent" by auto
    obtain ph where ph: "find_height (block_heights s) p = Some ph"
      using bk by (cases "find_height (block_heights s) p") (simp_all add: bookkeeping_def h p)
    obtain pw where pw: "map_of (cumulative_work s) p = Some pw"
      using bk by (cases "map_of (cumulative_work s) p") (simp_all add: bookkeeping_def h p)
    obtain w where w: "getWork rnd (genesisTarget s) (target b) = Inr w"
      using bk by (cases "getWork rnd (genesisTarget s) (target b)") (simp_all add: bookkeeping_def h p pw)
    obtain parent_utxos where pu: "map_of (utxo_sets s) p = Some (Some parent_utxos)"
      using bk by (cases "map_of (utxo_sets s) p") (auto simp: bookkeeping_def h p split: option.splits)
    obtain snapshot where
      sn: "Block_validate sha txh b parent_utxos (maxMintCoinsPerTx s) = Inr (Some snapshot)"
      using bk
      by (cases "Block_validate sha txh b parent_utxos (maxMintCoinsPerTx s)")
         (auto simp: bookkeeping_def h p pu split: option.splits)
    from bk have "find_height (block_heights s) h = Some (ph + 1)"
      "map_of (cumulative_work s) h = Some (float_add rnd pw w)"
      "map_of (utxo_sets s) h = Some (Some snapshot)"
      by (simp_all add: bookkeeping_def h p ph pw w pu sn)
    with h p stored(1) parent ph pw w pu sn show ?thesis by blast
  qed
next
  assume "\<exists>h p parent ph pw w snapshot parent_utxos.
         Block_getHash sha b = Inr h \<and> prior_block_hash b = Some p
       \<and> map_of (blocks s) h = Some b \<and> map_of (blocks s) p = Some parent
       \<and> find_height (block_heights s) h = Some (ph + 1)
       \<and> find_height (block_heights s) p = Some ph
       \<and> map_of (cumulative_work s) h = Some (float_add rnd pw w)
       \<and> map_of (cumulative_work s) p = Some pw
       \<and> getWork rnd (genesisTarget s) (target b) = Inr w
       \<and> map_of (utxo_sets s) h = Some (Some snapshot)
       \<and> map_of (utxo_sets s) p = Some (Some parent_utxos)
       \<and> Block_validate sha txh b parent_utxos (maxMintCoinsPerTx s) = Inr (Some snapshot)"
  then show "bookkeeping sha txh rnd s b"
    unfolding bookkeeping_def by auto
qed

lemma heights_stored_step:
  assumes "heights_stored s"
  shows "heights_stored (snd (extend sha txh rnd s c))"
  using extend_cases [of sha txh rnd s c]
proof (elim disjE conjE exE)
  assume "snd (extend sha txh rnd s c) = s"
  with assms show ?thesis by simp
next
  fix b p parent up u h
  assume "extend sha txh rnd s c = record_block rnd s b p u h"
  with record_block_heights_stored [OF assms] show ?thesis by simp
qed

text \<open>The bookkeeping of a block outlasts a call that stores no block under a stored hash.\<close>

lemma bookkeeping_step:
  assumes bk: "bookkeeping sha txh rnd s b0"
    and fresh: "stores_fresh sha txh s c"
  shows "bookkeeping sha txh rnd (snd (extend sha txh rnd s c)) b0"
proof (cases "stores_under sha txh s c")
  case None
  from extend_unstored [OF None] bk show ?thesis by simp
next
  case (Some h)
  from extend_stored [OF Some, where rnd = rnd] obtain b p u where
    ext: "extend sha txh rnd s c = record_block rnd s b p u h"
    by blast
  from fresh Some have new: "map_of (blocks s) h = None"
    by (simp add: stores_fresh_def)
  from bk obtain h0 p0 parent0 ph pw w snapshot parent_utxos where
    b0: "Block_getHash sha b0 = Inr h0" "prior_block_hash b0 = Some p0"
      "map_of (blocks s) h0 = Some b0" "map_of (blocks s) p0 = Some parent0"
      "find_height (block_heights s) h0 = Some (ph + 1)"
      "find_height (block_heights s) p0 = Some ph"
      "map_of (cumulative_work s) h0 = Some (float_add rnd pw w)"
      "map_of (cumulative_work s) p0 = Some pw"
      "getWork rnd (genesisTarget s) (target b0) = Inr w"
      "map_of (utxo_sets s) h0 = Some (Some snapshot)"
      "map_of (utxo_sets s) p0 = Some (Some parent_utxos)"
      "Block_validate sha txh b0 parent_utxos (maxMintCoinsPerTx s) = Inr (Some snapshot)"
    unfolding bookkeeping_iff by blast
  from b0(3,4) new have ne: "h0 \<noteq> h" "p0 \<noteq> h" by auto
  show ?thesis
    unfolding ext bookkeeping_iff
    using b0 ne
    by (simp add: record_block_blocks record_block_utxo_sets record_block_params
        record_block_work_other record_block_height_other update_conv')
qed

lemma bookkeeping_kept:
  "bookkeeping sha txh rnd s b0 \<Longrightarrow> unstored_calls sha txh rnd s cs \<Longrightarrow>
   bookkeeping sha txh rnd (extend_all sha txh rnd s cs) b0"
proof (induction cs arbitrary: s)
  case Nil
  then show ?case by simp
next
  case (Cons c cs)
  from Cons.prems(2) have fresh: "stores_fresh sha txh s c"
    and rest: "unstored_calls sha txh rnd (snd (extend sha txh rnd s c)) cs"
    by simp_all
  show ?case
    unfolding extend_all.simps
    by (rule Cons.IH [OF bookkeeping_step [OF Cons.prems(1) fresh] rest])
qed

text \<open>A block that \<open>extend\<close> accepts under a hash that was not stored has its bookkeeping.\<close>

lemma bookkeeping_recorded:
  assumes inv: "heights_stored s"
    and fresh: "stores_fresh sha txh s (Some b)"
    and acc: "fst (extend sha txh rnd s (Some b)) = Inr True"
  shows "bookkeeping sha txh rnd (snd (extend sha txh rnd s (Some b))) b"
proof (cases "stores_under sha txh s (Some b)")
  case None
  from extend_unstored [OF None] acc show ?thesis by simp
next
  case (Some h)
  from extend_stored [OF Some, where rnd = rnd] obtain p parent up u where
    p: "prior_block_hash b = Some p"
    and par: "map_of (blocks s) p = Some parent"
    and up: "map_of (utxo_sets s) p = Some (Some up)"
    and val: "Block_validate sha txh b up (maxMintCoinsPerTx s) = Inr (Some u)"
    and h: "Block_getHash sha b = Inr h"
    and ext: "extend sha txh rnd s (Some b) = record_block rnd s b p u h"
    by auto
  from fresh Some have new: "map_of (blocks s) h = None"
    by (simp add: stores_fresh_def)
  from par new have ne: "p \<noteq> h" by auto
  have "list_all (\<lambda>e. h \<notin> set (snd e)) (block_heights s)"
    using inv new unfolding heights_stored_def list_all_iff by fastforce
  from record_block_True [OF acc [unfolded ext] this]
  obtain ph pw w where ph: "find_height (block_heights s) p = Some ph"
    and hh: "find_height (block_heights (snd (record_block rnd s b p u h))) h = Some (ph + 1)"
    and pw: "map_of (cumulative_work s) p = Some pw"
    and w: "getWork rnd (genesisTarget s) (target b) = Inr w"
    and wh: "map_of (cumulative_work (snd (record_block rnd s b p u h))) h = Some (float_add rnd pw w)"
    by blast
  show ?thesis
    unfolding ext bookkeeping_iff
    using ne p h par up val ph hh pw w wh
    by (simp add: record_block_blocks record_block_utxo_sets record_block_params
        record_block_work_other record_block_height_other update_conv')
qed

lemma bookkeeping_run:
  "heights_stored s \<Longrightarrow> unstored_calls sha txh rnd s (pre @ Some b # post) \<Longrightarrow>
   fst (extend sha txh rnd (extend_all sha txh rnd s pre) (Some b)) = Inr True \<Longrightarrow>
   bookkeeping sha txh rnd (extend_all sha txh rnd s (pre @ Some b # post)) b"
proof (induction pre arbitrary: s)
  case Nil
  from Nil(2) have fresh: "stores_fresh sha txh s (Some b)"
    and rest: "unstored_calls sha txh rnd (snd (extend sha txh rnd s (Some b))) post"
    by simp_all
  from Nil(3) have acc: "fst (extend sha txh rnd s (Some b)) = Inr True" by simp
  from bookkeeping_kept [OF bookkeeping_recorded [OF Nil(1) fresh acc] rest]
  show ?case by simp
next
  case (Cons c pre)
  have "bookkeeping sha txh rnd
          (extend_all sha txh rnd (snd (extend sha txh rnd s c)) (pre @ Some b # post)) b"
  proof (rule Cons.IH)
    show "heights_stored (snd (extend sha txh rnd s c))"
      by (rule heights_stored_step [OF Cons.prems(1)])
    show "unstored_calls sha txh rnd (snd (extend sha txh rnd s c)) (pre @ Some b # post)"
      using Cons.prems(2) by simp
    show "fst (extend sha txh rnd (extend_all sha txh rnd (snd (extend sha txh rnd s c)) pre) (Some b))
            = Inr True"
      using Cons.prems(3) by simp
  qed
  then show ?case by simp
qed

lemma Blockchain_init_heights_stored:
  assumes "Blockchain_init sha txh rnd gt mm = Some (Inr s0)"
  shows "heights_stored s0"
proof -
  from assms obtain g gh w u where
    "s0 = \<lparr>maxMintCoinsPerTx = mm, blocks = [(gh, g)], block_heights = [(0, [gh])],
           cumulative_work = [(gh, w)], utxo_sets = [(gh, u)], genesisTarget = gt\<rparr>"
    by (auto simp: Blockchain_init_def split: option.splits sum.splits)
  then show ?thesis
    by (simp add: heights_stored_def)
qed

text \<open>
  What \<open>extend\<close> does keep.  On a chain built by the constructor, after any sequence of calls
  of \<open>extend\<close> none of which stores a block under a hash that is stored already, every block
  that \<open>extend\<close> has accepted has its bookkeeping: it is stored, its height is the height of
  its parent plus one, its cumulative work is that of its parent plus the work of its target,
  and its snapshot is the result of \<open>Block.validate\<close> on the snapshot of its parent.  Calls
  that are rejected, or that raise before the block is stored, are free to name any hash.
\<close>

lemma bookkeeping_of_accepted:
  assumes "Blockchain_init sha txh rnd gt mm = Some (Inr s0)"
    and "unstored_calls sha txh rnd s0 (pre @ Some b # post)"
    and "fst (extend sha txh rnd (extend_all sha txh rnd s0 pre) (Some b)) = Inr True"
  shows "bookkeeping sha txh rnd (extend_all sha txh rnd s0 (pre @ Some b # post)) b"
  by (rule bookkeeping_run [OF Blockchain_init_heights_stored [OF assms(1)] assms(2,3)])

text \<open>The chain with the twin blocks.\<close>

lemma str_nat_times10: "0 < n \<Longrightarrow> str_nat (n * 10) = str_nat n @ [char_of (48 :: nat)]"
  by (subst str_nat.simps) simp

lemma str_nat_shift: "0 < n \<Longrightarrow> str_nat (n * 10 ^ k) = str_nat n @ replicate k (char_of (48 :: nat))"
proof (induction k)
  case 0
  then show ?case by simp
next
  case (Suc k)
  have "n * 10 ^ Suc k = (n * 10 ^ k) * 10" by simp
  then have "str_nat (n * 10 ^ Suc k) = str_nat ((n * 10 ^ k) * 10)"
    by (rule arg_cong)
  also have "\<dots> = str_nat (n * 10 ^ k) @ [char_of (48 :: nat)]"
    using Suc.prems by (intro str_nat_times10) simp
  finally show ?case
    using Suc by (simp add: replicate_append_same)
qed

lemma str_int_shift:
  assumes "0 < n"
  shows "str_int (int n * 10 ^ k) = str_nat n @ replicate k (char_of (48 :: nat))"
proof -
  have "\<not> int n * 10 ^ k < 0" by (simp add: not_less)
  moreover have "nat (int n * 10 ^ k) = n * 10 ^ k"
    by (simp add: nat_mult_distrib nat_power_eq)
  ultimately show ?thesis
    using str_nat_shift [OF assms, of k] by (simp add: str_int_def)
qed

lemma str_targets:
  "str_int target_g = str_nat 1 @ replicate 80 (char_of (48 :: nat))"
  "str_int target_a = str_nat 11 @ replicate 79 (char_of (48 :: nat))"
  "str_int target_b = str_nat 1 @ replicate 79 (char_of (48 :: nat))"
  "str_int target_c = str_nat 1 @ replicate 81 (char_of (48 :: nat))"
  using str_int_shift [of 1 80] str_int_shift [of 11 79] str_int_shift [of 1 79] str_int_shift [of 1 81]
  by (simp_all add: target_g_def target_a_def target_b_def target_c_def)

lemma str_twins:
  "str_int (nonce twin_a) @ str_opt (target twin_a) = str_int (nonce twin_b) @ str_opt (target twin_b)"
  by (simp add: twin_a_def twin_b_def Block_init_def str_opt_def str_targets)
     (simp add: str_int_def str_nat.simps)

text \<open>The two blocks have the same header string, so the same hash under every digest.\<close>

lemma twins_same_hash: "Block_getHash sha twin_a = Block_getHash sha twin_b"
proof -
  have "prior_block_hash twin_a = prior_block_hash twin_b" "timestamp twin_a = timestamp twin_b"
    "contents (block_contents twin_a) = contents (block_contents twin_b)"
    by (simp_all add: twin_a_def twin_b_def Block_init_def)
  with str_twins show ?thesis
    unfolding Block_getHash_def by (simp split: sum.splits)
qed

lemmas big_defs = Block_getHash_def Block_init_def calcMerkleRoot_def sha_ex_def encode_def
  str_opt_def str_targets

lemma hash_big:
  "Block_getHash sha_ex genesis_big = Inr 88"
  "Block_getHash sha_ex twin_a = Inr 89"
  "Block_getHash sha_ex twin_b = Inr 89"
  "Block_getHash sha_ex child_of_a = Inr 90"
  by (simp_all add: big_defs genesis_big_def twin_a_def twin_b_def child_of_a_def)
     (simp_all add: str_int_def str_nat.simps)

lemma Block_validate_no_txs:
  "hash_below_target sha b \<Longrightarrow> objects (contents (block_contents b)) = [] \<Longrightarrow>
   Block_validate sha txh b u m = Inr (Some u)"
  by (simp add: Block_validate_below)

lemma below_big:
  "hash_below_target sha_ex genesis_big" "hash_below_target sha_ex twin_a"
  "hash_below_target sha_ex twin_b" "hash_below_target sha_ex child_of_a"
  by (simp_all add: hash_below_target_def hash_big)
     (simp_all add: genesis_big_def twin_a_def twin_b_def child_of_a_def
        target_g_def target_a_def target_b_def target_c_def)

lemma no_txs_big:
  "objects (contents (block_contents genesis_big)) = []"
  "objects (contents (block_contents twin_a)) = []"
  "objects (contents (block_contents twin_b)) = []"
  "objects (contents (block_contents child_of_a)) = []"
  by (simp_all add: genesis_big_def twin_a_def twin_b_def child_of_a_def Block_init_def)

lemma work_big:
  "getWork rnd_ex target_g (Some target_g) = Inr (Finite 1)"
  "getWork rnd_ex target_g (Some target_a) = Inr (Finite (10 / 11))"
  "getWork rnd_ex target_g (Some target_b) = Inr (Finite 10)"
  "getWork rnd_ex target_g (Some target_c) = Inr (Finite (1 / 10))"
  by (simp_all add: getWork_def int_truediv_def rnd_ex_def
      target_g_def target_a_def target_b_def target_c_def)

lemma init_big: "Blockchain_init sha_ex txh_ex rnd_ex target_g 100 = Some (Inr chain_big)"
proof -
  have "Block_init\<lparr>target := Some target_g, prior_block_hash := Some 0\<rparr>\<lparr>target := Some target_g, nonce := 0\<rparr>
          = genesis_big"
    by (simp add: genesis_big_def Block_init_def)
  moreover have "\<not> 88 \<ge> target_g" by (simp add: target_g_def)
  ultimately have "mine sha_ex (Block_init\<lparr>target := Some target_g, prior_block_hash := Some 0\<rparr>) target_g
          = Some (Inr genesis_big)"
    unfolding mine_def
    by (subst mine_loop.simps) (simp add: hash_big)
  then show ?thesis
    by (simp add: Blockchain_init_def hash_big work_big chain_big_def
        Block_validate_no_txs [OF below_big(1) no_txs_big(1)])
qed

lemma priors_big:
  "prior_block_hash twin_a = Some 88" "prior_block_hash twin_b = Some 88"
  "prior_block_hash child_of_a = Some 89"
  "target twin_a = Some target_a" "target twin_b = Some target_b" "target child_of_a = Some target_c"
  by (simp_all add: twin_a_def twin_b_def child_of_a_def Block_init_def)

lemmas run_defs = extend_def record_block_def file_under_height_def Let_def priors_big hash_big
  work_big Block_validate_no_txs [OF below_big(2) no_txs_big(2)]
  Block_validate_no_txs [OF below_big(3) no_txs_big(3)]
  Block_validate_no_txs [OF below_big(4) no_txs_big(4)]

lemma extend_twin_a: "extend sha_ex txh_ex rnd_ex chain_big (Some twin_a) = (Inr True, chain_a)"
  by (simp add: run_defs chain_big_def chain_a_def rnd_ex_def)

lemma extend_child: "extend sha_ex txh_ex rnd_ex chain_a (Some child_of_a) = (Inr True, chain_ac)"
  by (simp add: run_defs chain_a_def chain_ac_def rnd_ex_def)

lemma extend_twin_b: "extend sha_ex txh_ex rnd_ex chain_ac (Some twin_b) = (Inr True, chain_acb)"
  by (simp add: run_defs chain_ac_def chain_acb_def rnd_ex_def)

text \<open>
  A child of the first twin is turned away while its parent is unknown and accepted once the
  parent is stored; the bookkeeping of the parent is kept through both calls.
\<close>

lemma extend_early_child:
  "extend sha_ex txh_ex rnd_ex chain_big (Some child_of_a) = (Inr False, chain_big)"
  by (simp add: run_defs chain_big_def)

lemma stores_big:
  "stores_under sha_ex txh_ex chain_big (Some child_of_a) = None"
  "stores_under sha_ex txh_ex chain_big (Some twin_a) = Some 89"
  "stores_under sha_ex txh_ex chain_a (Some child_of_a) = Some 90"
  by (simp_all add: stores_under_def run_defs chain_big_def chain_a_def)

lemma unstored_big:
  "unstored_calls sha_ex txh_ex rnd_ex chain_big
     ([Some child_of_a] @ Some twin_a # [Some child_of_a])"
  by (simp add: stores_fresh_def stores_big extend_early_child extend_twin_a)
     (simp add: chain_big_def chain_a_def)

lemma accepted_big:
  "fst (extend sha_ex txh_ex rnd_ex (extend_all sha_ex txh_ex rnd_ex chain_big [Some child_of_a])
          (Some twin_a)) = Inr True"
  by (simp add: extend_early_child extend_twin_a)

lemma bookkeeping_of_accepted_example:
  "bookkeeping sha_ex txh_ex rnd_ex
     (extend_all sha_ex txh_ex rnd_ex chain_big ([Some child_of_a] @ Some twin_a # [Some child_of_a]))
     twin_a"
  by (rule bookkeeping_of_accepted [OF init_big unstored_big accepted_big])

text \<open>The bookkeeping along the run of the twins, and the work that is recorded at its end.\<close>

lemma twins_differ: "twin_a \<noteq> twin_b"
proof
  assume "twin_a = twin_b"
  then have "nonce twin_a = nonce twin_b" by simp
  then show False by (simp add: twin_a_def twin_b_def)
qed

lemma kept_a: "bookkeeping sha_ex txh_ex rnd_ex chain_a twin_a"
  by (simp add: bookkeeping_def run_defs chain_a_def rnd_ex_def)

lemma kept_ac: "bookkeeping sha_ex txh_ex rnd_ex chain_ac child_of_a"
  by (simp add: bookkeeping_def run_defs chain_ac_def rnd_ex_def)

lemma lost_twin: "\<not> bookkeeping sha_ex txh_ex rnd_ex chain_acb twin_a"
  using twins_differ by (auto simp: bookkeeping_def hash_big priors_big chain_acb_def)

lemma lost_child: "\<not> bookkeeping sha_ex txh_ex rnd_ex chain_acb child_of_a"
  by (simp add: bookkeeping_def hash_big priors_big work_big chain_acb_def rnd_ex_def)

lemma work_acb:
  "getCumulativeWork chain_acb 88 = Some (Finite 1)"
  "getCumulativeWork chain_acb 89 = Some (Finite 11)"
  "getCumulativeWork chain_acb 90 = Some (Finite (221 / 110))"
  by (simp_all add: getCumulativeWork_def chain_acb_def)

text \<open>
  C5: every block that \<open>extend\<close> has accepted keeps, after any sequence of calls, a height
  that is the height of its parent plus one, a cumulative work that is the work of its parent
  plus the work of its target, and the snapshot that \<open>Block.validate\<close> makes of the snapshot
  of its parent.  The code breaks this.  \<open>Block.getHash\<close> writes the nonce and the target
  into the header string with nothing between them, so the two twin blocks, which differ,
  have the same hash under every digest; both are valid, their targets being above every
  256-bit hash.  On the chain that the constructor builds, \<open>extend\<close> accepts the first twin
  and a child of it, each with its bookkeeping, and then accepts the second twin, which it
  stores over the first.  The first twin is no longer stored, the work recorded under its
  hash is 1 + 10, that of the genesis block plus the work of the target of the second twin,
  and the work recorded for the child, 221 / 110, is no longer the work recorded for its parent
  plus the work 1 / 10 of its own target.
\<close>

theorem extend_same_hash_overwrites:
  "twin_a \<noteq> twin_b
   \<and> (\<forall>sha. Block_getHash sha twin_a = Block_getHash sha twin_b)
   \<and> Blockchain_init sha_ex txh_ex rnd_ex target_g 100 = Some (Inr chain_big)
   \<and> extend sha_ex txh_ex rnd_ex chain_big (Some twin_a) = (Inr True, chain_a)
   \<and> bookkeeping sha_ex txh_ex rnd_ex chain_a twin_a
   \<and> extend sha_ex txh_ex rnd_ex chain_a (Some child_of_a) = (Inr True, chain_ac)
   \<and> bookkeeping sha_ex txh_ex rnd_ex chain_ac child_of_a
   \<and> extend sha_ex txh_ex rnd_ex chain_ac (Some twin_b) = (Inr True, chain_acb)
   \<and> \<not> bookkeeping sha_ex txh_ex rnd_ex chain_acb twin_a
   \<and> \<not> bookkeeping sha_ex txh_ex rnd_ex chain_acb child_of_a
   \<and> getCumulativeWork chain_acb 88 = Some (Finite 1)
   \<and> getCumulativeWork chain_acb 89 = Some (Finite 11)
   \<and> getCumulativeWork chain_acb 90 = Some (Finite (221 / 110))
   \<and> getWork rnd_ex target_g (target child_of_a) = Inr (Finite (1 / 10))"
  by (intro conjI allI twins_differ twins_same_hash init_big extend_twin_a kept_a extend_child
      kept_ac extend_twin_b lost_twin lost_child work_acb)
     (simp add: priors_big work_big)

section \<open>Chains that the constructor and extend build\<close>

lemma Block_getHash_nonneg: "Block_getHash sha b = Inr h \<Longrightarrow> 0 \<le> h"
  by (auto simp: Block_getHash_def split: sum.splits)

text \<open>\<open>mine\<close> returns a block only when its hash is below the target.\<close>

lemma mine_loop_below:
  assumes run: "mine_loop sha0 tgt0 b0 = Some r0"
  shows "\<forall>g. r0 = Inr g \<longrightarrow> (\<exists>h. Block_getHash sha0 g = Inr h \<and> h < tgt0)"
proof (rule mine_loop.raw_induct
    [where P = "\<lambda>sha tgt b r. \<forall>g. r = Inr g \<longrightarrow> (\<exists>h. Block_getHash sha g = Inr h \<and> h < tgt)",
      OF _ run])
  fix f sha tgt b r
  assume IH: "\<And>sha tgt b r. f sha tgt b = Some r \<Longrightarrow>
                \<forall>g. r = Inr g \<longrightarrow> (\<exists>h. Block_getHash sha g = Inr h \<and> h < tgt)"
    and eq: "(case Block_getHash sha b of
                Inl e \<Rightarrow> Some (Inl e)
              | Inr h \<Rightarrow> if tgt \<le> h then f sha tgt (b\<lparr>nonce := nonce b + 1\<rparr>) else Some (Inr b))
             = Some r"
  show "\<forall>g. r = Inr g \<longrightarrow> (\<exists>h. Block_getHash sha g = Inr h \<and> h < tgt)"
  proof (cases "Block_getHash sha b")
    case (Inl e)
    with eq show ?thesis by auto
  next
    case (Inr h)
    show ?thesis
    proof (cases "tgt \<le> h")
      case True
      with eq Inr have "f sha tgt (b\<lparr>nonce := nonce b + 1\<rparr>) = Some r" by simp
      then show ?thesis by (rule IH)
    next
      case False
      with eq Inr show ?thesis by auto
    qed
  qed
qed

lemma Block_validate_Some_below:
  "Block_validate sha txh b u m = Inr (Some r) \<Longrightarrow> hash_below_target sha b"
  by (auto simp: Block_validate_def hash_below_target_def split: sum.splits option.splits if_splits)

lemma record_block_work:
  "cumulative_work (snd (record_block rnd s b p u h)) = cumulative_work s
   \<or> (\<exists>pw w. map_of (cumulative_work s) p = Some pw
          \<and> getWork rnd (genesisTarget s) (target b) = Inr w
          \<and> cumulative_work (snd (record_block rnd s b p u h))
              = AList.update h (float_add rnd pw w) (cumulative_work s))"
  by (auto simp: record_block_def Let_def split: option.splits sum.splits)

lemma float_add_nonneg:
  "sound_rounding rnd \<Longrightarrow> work_nonneg x \<Longrightarrow> work_nonneg y \<Longrightarrow> work_nonneg (float_add rnd x y)"
proof (cases x; cases y)
  fix a b
  assume "sound_rounding rnd" "work_nonneg x" "work_nonneg y" "x = Finite a" "y = Finite b"
  then have "0 \<le> a + b" and r: "rnd (a + b) = PosInf \<or> (\<exists>q'\<ge>0. rnd (a + b) = Finite q')"
    by (auto simp: sound_rounding_def)
  then show "work_nonneg (float_add rnd x y)"
    using \<open>x = Finite a\<close> \<open>y = Finite b\<close> by auto
qed auto

lemma getWork_nonneg:
  assumes "sound_rounding rnd" and "0 < gt" and "0 < t" and "getWork rnd gt (Some t) = Inr w"
  shows "work_nonneg w"
proof -
  have "(0 :: rat) \<le> of_int gt / of_int t" using assms(2,3) by simp
  with assms(1) have "rnd (of_int gt / of_int t) = PosInf
      \<or> (\<exists>q'\<ge>0. rnd (of_int gt / of_int t) = Finite q')"
    by (simp add: sound_rounding_def)
  then show ?thesis
  proof (elim disjE exE conjE)
    assume "rnd (of_int gt / of_int t) = PosInf"
    with assms(3,4) show ?thesis by (simp add: getWork_def int_truediv_def)
  next
    fix q' :: rat
    assume "0 \<le> q'" and "rnd (of_int gt / of_int t) = Finite q'"
    with assms(3,4) show ?thesis by (auto simp: getWork_def int_truediv_def)
  qed
qed

lemma all_update:
  "list_all (\<lambda>e. P (snd e)) xs \<Longrightarrow> P v \<Longrightarrow> list_all (\<lambda>e. P (snd e)) (AList.update k v xs)"
  by (induction xs) auto

lemma set_update_subset: "set (AList.update k v xs) \<subseteq> insert (k, v) (set xs)"
  by (induction xs) auto

lemma keys_update_stored:
  assumes "list_all (\<lambda>e. map_of blks (fst e) \<noteq> None) cw"
  shows "list_all (\<lambda>e. map_of (AList.update h b blks) (fst e) \<noteq> None) (AList.update h v cw)"
  unfolding list_all_iff
proof
  fix e assume "e \<in> set (AList.update h v cw)"
  with set_update_subset [of h v cw] have "e = (h, v) \<or> e \<in> set cw" by auto
  with assms show "map_of (AList.update h b blks) (fst e) \<noteq> None"
    by (auto simp: list_all_iff update_conv')
qed

lemma keys_stored_more:
  "list_all (\<lambda>e. map_of blks (fst e) \<noteq> None) cw \<Longrightarrow>
   list_all (\<lambda>e. map_of (AList.update h b blks) (fst e) \<noteq> None) cw"
  by (induction cw) (auto simp: update_conv')

lemma tip_inv_step:
  assumes inv: "tip_inv s" and rnd: "sound_rounding rnd"
  shows "tip_inv (snd (extend sha txh rnd s c))"
  using extend_cases [of sha txh rnd s c]
proof (elim disjE conjE exE)
  assume "snd (extend sha txh rnd s c) = s"
  with inv show ?thesis by simp
next
  fix b p parent up u h
  assume val: "Block_validate sha txh b up (maxMintCoinsPerTx s) = Inr (Some u)"
    and h: "Block_getHash sha b = Inr h"
    and ext: "extend sha txh rnd s c = record_block rnd s b p u h"
  from Block_validate_Some_below [OF val] h obtain t where t: "target b = Some t" "h < t"
    by (auto simp: hash_below_target_def split: option.splits)
  with Block_getHash_nonneg [OF h] have tpos: "0 < t" by simp
  from inv have gt: "0 < genesisTarget s"
    and nn: "list_all (\<lambda>e. work_nonneg (snd e)) (cumulative_work s)"
    and st: "list_all (\<lambda>e. map_of (blocks s) (fst e) \<noteq> None) (cumulative_work s)"
    and ne: "cumulative_work s \<noteq> []"
    by (simp_all add: tip_inv_def)
  from record_block_work [of rnd s b p u h] show ?thesis
  proof (elim disjE conjE exE)
    assume "cumulative_work (snd (record_block rnd s b p u h)) = cumulative_work s"
    with gt nn ne keys_stored_more [OF st] show ?thesis
      unfolding ext tip_inv_def by (simp add: record_block_params record_block_blocks)
  next
    fix pw w
    assume pw: "map_of (cumulative_work s) p = Some pw"
      and w: "getWork rnd (genesisTarget s) (target b) = Inr w"
      and cw: "cumulative_work (snd (record_block rnd s b p u h))
                = AList.update h (float_add rnd pw w) (cumulative_work s)"
    from map_of_SomeD [OF pw] nn have "work_nonneg pw"
      unfolding list_all_iff by fastforce
    moreover from getWork_nonneg [OF rnd gt tpos] w t have "work_nonneg w" by simp
    ultimately have "work_nonneg (float_add rnd pw w)"
      by (rule float_add_nonneg [OF rnd])
    with gt all_update [OF nn, of "float_add rnd pw w" h] keys_update_stored [OF st] show ?thesis
      unfolding ext tip_inv_def cw by (simp add: record_block_params record_block_blocks)
  qed
qed

lemma tip_inv_calls:
  "tip_inv s \<Longrightarrow> sound_rounding rnd \<Longrightarrow> tip_inv (extend_all sha txh rnd s cs)"
  by (induction cs arbitrary: s) (auto intro: tip_inv_step)

lemma Blockchain_init_tip_inv:
  assumes "Blockchain_init sha txh rnd gt mm = Some (Inr s0)" and "sound_rounding rnd"
  shows "tip_inv s0"
proof -
  from assms(1) obtain g gh w u where
    mined: "mine sha (Block_init\<lparr>target := Some gt, prior_block_hash := Some 0\<rparr>) gt = Some (Inr g)"
    and gh: "Block_getHash sha g = Inr gh"
    and w: "getWork rnd gt (Some gt) = Inr w"
    and s0: "s0 = \<lparr>maxMintCoinsPerTx = mm, blocks = [(gh, g)], block_heights = [(0, [gh])],
           cumulative_work = [(gh, w)], utxo_sets = [(gh, u)], genesisTarget = gt\<rparr>"
    by (auto simp: Blockchain_init_def split: option.splits sum.splits)
  from mine_loop_below [OF mined [unfolded mine_def]] gh have "gh < gt" by auto
  with Block_getHash_nonneg [OF gh] have "0 < gt" by simp
  with getWork_nonneg [OF assms(2) this this w] show ?thesis
    unfolding s0 tip_inv_def by simp
qed

text \<open>
  Every chain that the constructor and calls of \<open>extend\<close> build meets the three conditions
  under which \<open>getTip\<close> is characterised, when the rounding is sound.
\<close>

lemma tip_conditions_reachable:
  assumes "Blockchain_init sha txh rnd gt mm = Some (Inr s0)" and "sound_rounding rnd"
  shows "list_all (\<lambda>e. map_of (blocks (extend_all sha txh rnd s0 cs)) (fst e) \<noteq> None)
           (cumulative_work (extend_all sha txh rnd s0 cs))"
    and "list_all (\<lambda>e. snd e \<noteq> NaN) (cumulative_work (extend_all sha txh rnd s0 cs))"
    and "list_ex (\<lambda>e. float_gt (snd e) (Finite (- 1))) (cumulative_work (extend_all sha txh rnd s0 cs))"
proof -
  let ?cw = "cumulative_work (extend_all sha txh rnd s0 cs)"
  have inv: "tip_inv (extend_all sha txh rnd s0 cs)"
    by (rule tip_inv_calls [OF Blockchain_init_tip_inv [OF assms] assms(2)])
  then show "list_all (\<lambda>e. map_of (blocks (extend_all sha txh rnd s0 cs)) (fst e) \<noteq> None) ?cw"
    by (simp add: tip_inv_def)
  have nn: "work_nonneg w \<Longrightarrow> w \<noteq> NaN \<and> float_gt w (Finite (- 1))" for w
    by (cases w) auto
  from inv have all: "list_all (\<lambda>e. work_nonneg (snd e)) ?cw" and ne: "?cw \<noteq> []"
    by (simp_all add: tip_inv_def)
  from all nn show "list_all (\<lambda>e. snd e \<noteq> NaN) ?cw"
    by (auto simp: list_all_iff)
  from ne obtain e where "e \<in> set ?cw" by (cases ?cw) auto
  with all nn show "list_ex (\<lambda>e. float_gt (snd e) (Finite (- 1))) ?cw"
    unfolding list_all_iff list_ex_iff by blast
qed

end
